theory Spec2Isabelle
  imports Complex_Main "HOL-Library.Multiset" "HOL-Library.Log_Nat"
begin

section \<open>Conventions of the embedding\<close>

text \<open>
  The two C files are embedded function by function. A C \<^verbatim>\<open>int\<close> is a HOL \<open>int\<close>.
  Signed overflow is undefined in C; where the embedding adds, subtracts or counts
  without further ado it describes the executions in which the operation stays in the
  range of \<^verbatim>\<open>int\<close>, and the subtractions of the scheduler's comparer, which leave the
  range on inputs that the driver can produce, wrap around as they do on the machine.
  The value that a function returns as a \<^verbatim>\<open>float\<close> is the real number that the
  \<^verbatim>\<open>float\<close> stands for, or an infinity. A pointer that may be NULL is an
  \<open>option\<close> (\<open>None\<close> is NULL). Every way in which a C execution can stop without returning
  is a value of type \<open>fault\<close>: reading through NULL, reading through a pointer to memory
  that is not allocated, indexing an array out of its bounds, and \<^verbatim>\<open>exit(1)\<close>.
\<close>

datatype fault = NullDeref | BadDeref | OutOfBounds | Exit1

section \<open>libpriqueue.c\<close>

text \<open>
  Modelled from the spec: the declarations of \<^verbatim>\<open>node\<close> and \<^verbatim>\<open>priqueue_t\<close> are in
  libpriqueue.h, which is not among the sources. The C code uses the fields \<^verbatim>\<open>data\<close> and
  \<^verbatim>\<open>nextNode\<close> of a node and the fields \<^verbatim>\<open>head\<close>, \<^verbatim>\<open>size\<close> and \<^verbatim>\<open>compare\<close> of a queue.
  The chain of nodes that starts at \<^verbatim>\<open>head\<close> is the list of its \<^verbatim>\<open>data\<close> fields, in chain
  order; \<open>head q = []\<close> is \<^verbatim>\<open>q->head == NULL\<close>. The field \<^verbatim>\<open>size\<close> is stored on its own,
  as in C, so a queue whose counter disagrees with its chain is a value of the model.
  The function pointer \<^verbatim>\<open>compare\<close> is passed to \<open>priqueue_offer\<close> as an argument, because
  the scheduler's comparer reads the jobs through the pointers at the time of the call;
  a comparer may fault.
\<close>

record 'a priqueue_t =
  head :: "'a list"
  size_q :: int

definition priqueue_init :: "'a priqueue_t" where
  "priqueue_init = \<lparr>head = [], size_q = 0\<rparr>"

text \<open>
  The loop of \<^verbatim>\<open>priqueue_offer\<close>. The last argument is the chain from \<^verbatim>\<open>traverse\<close> on;
  the result is that chain with the new node linked in, and the index returned, or \<open>None\<close>
  when the loop ends without inserting.
\<close>

fun offer_traverse ::
  "('a \<Rightarrow> 'a \<Rightarrow> fault + int) \<Rightarrow> 'a \<Rightarrow> int \<Rightarrow> int \<Rightarrow> 'a list \<Rightarrow> fault + ('a list \<times> int) option"
where
  "offer_traverse cmp ptr sz i [] = Inl NullDeref"
| "offer_traverse cmp ptr sz i (t # rest) =
    (if i < sz then
       (case rest of
          [] \<Rightarrow> Inr (Some ([t, ptr], i + 1))
        | nxt # _ \<Rightarrow>
            (case cmp ptr nxt of
               Inl f \<Rightarrow> Inl f
             | Inr c \<Rightarrow>
                 if c < 0 then Inr (Some (t # ptr # rest, i + 1))
                 else (case offer_traverse cmp ptr sz (i + 1) rest of
                         Inl f \<Rightarrow> Inl f
                       | Inr None \<Rightarrow> Inr None
                       | Inr (Some (l, k)) \<Rightarrow> Inr (Some (t # l, k)))))
     else Inr None)"

definition priqueue_offer ::
  "('a \<Rightarrow> 'a \<Rightarrow> fault + int) \<Rightarrow> 'a priqueue_t \<Rightarrow> 'a \<Rightarrow> fault + ('a priqueue_t \<times> int)"
where
  "priqueue_offer cmp q ptr =
    (if size_q q = 0 then Inr (q\<lparr>head := [ptr], size_q := size_q q + 1\<rparr>, 0)
     else
       (case head q of
          [] \<Rightarrow> Inl NullDeref
        | h # _ \<Rightarrow>
            (case cmp ptr h of
               Inl f \<Rightarrow> Inl f
             | Inr c \<Rightarrow>
                 if c < 0 then Inr (q\<lparr>head := ptr # head q, size_q := size_q q + 1\<rparr>, 0)
                 else (case offer_traverse cmp ptr (size_q q) 0 (head q) of
                         Inl f \<Rightarrow> Inl f
                       | Inr None \<Rightarrow> Inr (q, - 1)
                       | Inr (Some (l, k)) \<Rightarrow>
                           Inr (q\<lparr>head := l, size_q := size_q q + 1\<rparr>, k)))))"

definition priqueue_peek :: "'a priqueue_t \<Rightarrow> 'a option" where
  "priqueue_peek q = (case head q of [] \<Rightarrow> None | x # _ \<Rightarrow> Some x)"

definition priqueue_poll :: "'a priqueue_t \<Rightarrow> 'a priqueue_t \<times> 'a option" where
  "priqueue_poll q =
    (case head q of
       [] \<Rightarrow> (q, None)
     | x # xs \<Rightarrow> (q\<lparr>head := xs, size_q := size_q q - 1\<rparr>, Some x))"

text \<open>
  \<^verbatim>\<open>for (int i = 0; i < index; i++) traverse = traverse->nextNode;\<close> follows
  \<^verbatim>\<open>nextNode\<close> once for every \<open>i\<close> with \<open>0 \<le> i < index\<close>, that is \<open>nat index\<close> times
  (no time when \<open>index \<le> 0\<close>), and faults when it has to leave the chain.
\<close>

fun walk :: "nat \<Rightarrow> 'a list \<Rightarrow> fault + 'a list" where
  "walk 0 l = Inr l"
| "walk (Suc n) [] = Inl NullDeref"
| "walk (Suc n) (x # xs) = walk n xs"

definition priqueue_at :: "'a priqueue_t \<Rightarrow> int \<Rightarrow> fault + 'a option" where
  "priqueue_at q index =
    (if index < size_q q then
       (case walk (nat index) (head q) of
          Inl f \<Rightarrow> Inl f
        | Inr [] \<Rightarrow> Inl NullDeref
        | Inr (x # _) \<Rightarrow> Inr (Some x))
     else Inr None)"

text \<open>
  The first loop of \<^verbatim>\<open>priqueue_remove\<close> unlinks matching nodes at the head; the
  arguments are the counter \<^verbatim>\<open>q->size\<close>, the chain and \<^verbatim>\<open>numRemoved\<close>.
\<close>

fun remove_front :: "'a \<Rightarrow> int \<Rightarrow> 'a list \<Rightarrow> int \<Rightarrow> fault + ('a list \<times> int \<times> int)" where
  "remove_front ptr sz [] n = (if sz > 0 then Inl NullDeref else Inr ([], sz, n))"
| "remove_front ptr sz (x # xs) n =
    (if sz > 0 \<and> x = ptr then remove_front ptr (sz - 1) xs (n + 1)
     else Inr (x # xs, sz, n))"

text \<open>
  The second loop starts behind the head (\<^verbatim>\<open>prev = q->head\<close>) and unlinks every
  matching node; the argument is the chain from \<^verbatim>\<open>traverse\<close> on.
\<close>

fun remove_rest :: "'a \<Rightarrow> 'a list \<Rightarrow> int \<Rightarrow> int \<Rightarrow> 'a list \<times> int \<times> int" where
  "remove_rest ptr [] sz n = ([], sz, n)"
| "remove_rest ptr (y # ys) sz n =
    (if y = ptr then remove_rest ptr ys (sz - 1) (n + 1)
     else (case remove_rest ptr ys sz n of (l, sz', n') \<Rightarrow> (y # l, sz', n')))"

definition priqueue_remove :: "'a priqueue_t \<Rightarrow> 'a \<Rightarrow> fault + ('a priqueue_t \<times> int)" where
  "priqueue_remove q ptr =
    (case remove_front ptr (size_q q) (head q) 0 of
       Inl f \<Rightarrow> Inl f
     | Inr ([], sz, n) \<Rightarrow> Inr (q\<lparr>head := [], size_q := sz\<rparr>, n)
     | Inr (x # xs, sz, n) \<Rightarrow>
         (case remove_rest ptr xs sz n of
            (l, sz', n') \<Rightarrow> Inr (q\<lparr>head := x # l, size_q := sz'\<rparr>, n')))"

text \<open>
  \<^verbatim>\<open>priqueue_remove_at\<close> reads \<^verbatim>\<open>traverse->data\<close> and then writes \<^verbatim>\<open>prev->nextNode\<close>;
  \<^verbatim>\<open>prev\<close> is still NULL when the loop has not run, that is when \<open>index \<le> 0\<close>.
\<close>

definition priqueue_remove_at :: "'a priqueue_t \<Rightarrow> int \<Rightarrow> fault + ('a priqueue_t \<times> 'a option)" where
  "priqueue_remove_at q index =
    (if index < size_q q then
       (case walk (nat index) (head q) of
          Inl f \<Rightarrow> Inl f
        | Inr [] \<Rightarrow> Inl NullDeref
        | Inr (x # rest) \<Rightarrow>
            if nat index = 0 then Inl NullDeref
            else Inr (q\<lparr>head := take (nat index) (head q) @ rest,
                        size_q := size_q q - 1\<rparr>, Some x))
     else Inr (q, None))"

definition priqueue_size :: "'a priqueue_t \<Rightarrow> int" where
  "priqueue_size q = size_q q"


subsection \<open>Well-formed queues and comparers\<close>


text \<open>The counter of a well-formed queue is the length of its chain.\<close>

definition wf_queue :: "'a priqueue_t \<Rightarrow> bool" where
  "wf_queue q \<longleftrightarrow> size_q q = int (length (head q))"


section \<open>libscheduler.c\<close>

subsection \<open>Data\<close>

text \<open>
  A \<^verbatim>\<open>job_t\<close> lives in the heap and is reached through pointers, which the queue and the
  array of cores share. The heap of jobs is a map from addresses to jobs. \<^verbatim>\<open>malloc\<close>
  returns the address \<open>brk\<close>, which no earlier call has returned, and advances it;
  \<^verbatim>\<open>free\<close> takes the address out of the map. So an address below \<open>brk\<close> that the map
  does not hold is the address of a job that has been freed. A \<^verbatim>\<open>malloc\<close> that fails is
  not modelled.
\<close>

type_synonym ptr = nat

record job_t =
  jobNumber :: int
  arrivalTime :: int
  runTime :: int
  remainingTime :: int
  priority :: int
  initTime :: int
  lastTime :: int

text \<open>
  Modelled from the spec: \<^verbatim>\<open>scheme_t\<close> is declared in libscheduler.h, which is not among
  the sources; its six values are the labels of the \<^verbatim>\<open>switch\<close> in \<^verbatim>\<open>compare\<close>.
\<close>

datatype scheme_t = FCFS | SJF | PSJF | PRI | PPRI | RR

record core_t =
  nCores :: int
  jobs :: "ptr option list"

text \<open>
  The global variables of libscheduler.c, together with the heap. \<^verbatim>\<open>mQueue\<close> points to
  a queue that only the scheduler reaches; the model holds the queue itself. The three
  accumulators are \<^verbatim>\<open>double\<close>s to which integers are added; they are real numbers
  here. A \<^verbatim>\<open>double\<close> holds every integer of magnitude up to \<open>2 ^ 53\<close>, so the sums
  are exact as long as they stay in that range; the rounding of an addition beyond it is
  not modelled.
\<close>

record sched =
  curScheme :: scheme_t
  mQueue :: "ptr priqueue_t"
  cpu :: core_t
  currentTime :: int
  totalWaitTime :: real
  numWaiting :: int
  totalRespTime :: real
  numResponse :: int
  totalTurnAroundTime :: real
  numTurnAround :: int
  mem :: "ptr \<Rightarrow> job_t option"
  brk :: ptr

text \<open>The static initialisers of the globals; nothing is allocated yet.\<close>

definition initial_globals :: sched where
  "initial_globals =
    \<lparr>curScheme = FCFS, mQueue = priqueue_init, cpu = \<lparr>nCores = 0, jobs = []\<rparr>,
     currentTime = 0, totalWaitTime = 0, numWaiting = 0, totalRespTime = 0, numResponse = 0,
     totalTurnAroundTime = 0, numTurnAround = 0, mem = (\<lambda>p. None), brk = 0\<rparr>"

subsection \<open>The comparer\<close>

text \<open>
  \<^verbatim>\<open>compare\<close> subtracts fields of two jobs and returns a difference. A difference can
  leave the range of an \<^verbatim>\<open>int\<close> of 32 bits even when the driver passes only non-negative
  numbers, because the remaining time of a job that stays on its core beyond its service
  is negative. The machine then keeps the low 32 bits of the difference, read in two's
  complement; \<open>int32\<close> is this reading, and the identity on the range of \<^verbatim>\<open>int\<close>.
\<close>

definition int32 :: "int \<Rightarrow> int" where
  "int32 x = (x + 2147483648) mod 4294967296 - 2147483648"

text \<open>The \<^verbatim>\<open>switch\<close> of \<^verbatim>\<open>compare\<close>, on the two jobs read through the pointers.\<close>

definition compare_jobs :: "scheme_t \<Rightarrow> job_t \<Rightarrow> job_t \<Rightarrow> int" where
  "compare_jobs scheme a b =
    (let arrivalTimeDiff = int32 (arrivalTime a - arrivalTime b);
         runTimeDiff = int32 (runTime a - runTime b);
         remainingTimeDiff = int32 (remainingTime a - remainingTime b);
         priorityDiff = int32 (priority a - priority b)
     in case scheme of
          FCFS \<Rightarrow> arrivalTimeDiff
        | SJF \<Rightarrow> if runTimeDiff = 0 then arrivalTimeDiff else runTimeDiff
        | PSJF \<Rightarrow> if remainingTimeDiff = 0 then arrivalTimeDiff else remainingTimeDiff
        | PRI \<Rightarrow> if priorityDiff = 0 then arrivalTimeDiff else priorityDiff
        | PPRI \<Rightarrow> if priorityDiff = 0 then arrivalTimeDiff else priorityDiff
        | RR \<Rightarrow> 0)"

text \<open>
  No subtraction of \<^verbatim>\<open>compare\<close> overflows on the two jobs, in either order of the
  arguments.
\<close>

definition fits :: "int \<Rightarrow> bool" where
  "fits x \<longleftrightarrow> - 2147483648 < x \<and> x < 2147483648"

definition differences_fit :: "job_t \<Rightarrow> job_t \<Rightarrow> bool" where
  "differences_fit a b \<longleftrightarrow>
     fits (arrivalTime a - arrivalTime b) \<and> fits (runTime a - runTime b) \<and>
     fits (remainingTime a - remainingTime b) \<and> fits (priority a - priority b)"

definition compare :: "sched \<Rightarrow> ptr \<Rightarrow> ptr \<Rightarrow> fault + int" where
  "compare s jobA jobB =
    (case mem s jobA of
       None \<Rightarrow> Inl BadDeref
     | Some a \<Rightarrow>
         (case mem s jobB of
            None \<Rightarrow> Inl BadDeref
          | Some b \<Rightarrow> Inr (compare_jobs (curScheme s) a b)))"

subsection \<open>The cores\<close>

definition cpuInit :: "int \<Rightarrow> core_t" where
  "cpuInit cores = \<lparr>nCores = cores, jobs = replicate (nat cores) None\<rparr>"

text \<open>
  A loop \<^verbatim>\<open>for (int i = 0; i < cpu.nCores; i++)\<close> over \<^verbatim>\<open>cpu.jobs[i]\<close> visits the first
  \<open>nCores\<close> entries of the array in order, and reads behind the array when \<open>nCores\<close>
  exceeds its length.
\<close>

definition visited :: "sched \<Rightarrow> ptr option list" where
  "visited s = take (nat (nCores (cpu s))) (jobs (cpu s))"

definition overrun :: "sched \<Rightarrow> bool" where
  "overrun s \<longleftrightarrow> int (length (jobs (cpu s))) < nCores (cpu s)"

text \<open>What one round of the loop of \<^verbatim>\<open>cpuUpdateTime\<close> does to the job in the core.\<close>

definition cpuUpdateTime_job :: "int \<Rightarrow> job_t \<Rightarrow> job_t" where
  "cpuUpdateTime_job time job =
    (let job1 = (if initTime job = - 1 \<and> lastTime job \<noteq> time
                 then job\<lparr>initTime := lastTime job\<rparr> else job)
     in job1\<lparr>remainingTime := remainingTime job1 - (time - lastTime job1), lastTime := time\<rparr>)"

fun cpuUpdateTime_loop :: "int \<Rightarrow> ptr option list \<Rightarrow> sched \<Rightarrow> fault + sched" where
  "cpuUpdateTime_loop time [] s = Inr s"
| "cpuUpdateTime_loop time (None # rest) s = cpuUpdateTime_loop time rest s"
| "cpuUpdateTime_loop time (Some p # rest) s =
    (case mem s p of
       None \<Rightarrow> Inl BadDeref
     | Some job \<Rightarrow>
         cpuUpdateTime_loop time rest
           ((if initTime job = - 1 \<and> lastTime job \<noteq> time
             then s\<lparr>totalRespTime := totalRespTime s + real_of_int (lastTime job - arrivalTime job),
                    numResponse := numResponse s + 1\<rparr>
             else s)
            \<lparr>mem := (mem s)(p \<mapsto> cpuUpdateTime_job time job)\<rparr>))"

definition cpuUpdateTime :: "int \<Rightarrow> sched \<Rightarrow> fault + sched" where
  "cpuUpdateTime time s =
    (case cpuUpdateTime_loop time (visited s) (s\<lparr>currentTime := time\<rparr>) of
       Inl f \<Rightarrow> Inl f
     | Inr s' \<Rightarrow> if overrun s then Inl OutOfBounds else Inr s')"

fun cpuCoresAvailable_loop :: "int \<Rightarrow> ptr option list \<Rightarrow> int option" where
  "cpuCoresAvailable_loop i [] = None"
| "cpuCoresAvailable_loop i (None # rest) = Some i"
| "cpuCoresAvailable_loop i (Some p # rest) = cpuCoresAvailable_loop (i + 1) rest"

definition cpuCoresAvailable :: "sched \<Rightarrow> fault + int" where
  "cpuCoresAvailable s =
    (case cpuCoresAvailable_loop 0 (visited s) of
       Some i \<Rightarrow> Inr i
     | None \<Rightarrow> if overrun s then Inl OutOfBounds else Inr (- 1))"

text \<open>\<^verbatim>\<open>cpu.jobs[index]\<close>, and the job it points to.\<close>

definition core_slot :: "sched \<Rightarrow> int \<Rightarrow> fault + ptr option" where
  "core_slot s index =
    (if index < 0 \<or> int (length (jobs (cpu s))) \<le> index then Inl OutOfBounds
     else Inr (jobs (cpu s) ! nat index))"

definition core_job :: "sched \<Rightarrow> int \<Rightarrow> fault + job_t" where
  "core_job s index =
    (case core_slot s index of
       Inl f \<Rightarrow> Inl f
     | Inr None \<Rightarrow> Inl NullDeref
     | Inr (Some p) \<Rightarrow> (case mem s p of None \<Rightarrow> Inl BadDeref | Some j \<Rightarrow> Inr j))"

definition cpuCoreAssignJob :: "int \<Rightarrow> ptr \<Rightarrow> sched \<Rightarrow> fault + (sched \<times> ptr)" where
  "cpuCoreAssignJob index job s =
    (case core_slot s index of
       Inl f \<Rightarrow> Inl f
     | Inr (Some p) \<Rightarrow> Inl Exit1
     | Inr None \<Rightarrow>
         (case mem s job of
            None \<Rightarrow> Inl BadDeref
          | Some j \<Rightarrow>
              Inr (s\<lparr>cpu := (cpu s)\<lparr>jobs := (jobs (cpu s))[nat index := Some job]\<rparr>,
                     mem := (mem s)(job \<mapsto> j\<lparr>lastTime := currentTime s\<rparr>)\<rparr>, job)))"

definition cpuCoreRemoveJob :: "int \<Rightarrow> int \<Rightarrow> sched \<Rightarrow> fault + (sched \<times> ptr)" where
  "cpuCoreRemoveJob core_id job_number s =
    (if core_id < 0 \<or> core_id \<ge> nCores (cpu s) then Inl Exit1
     else
       (case core_slot s core_id of
          Inl f \<Rightarrow> Inl f
        | Inr None \<Rightarrow> Inl NullDeref
        | Inr (Some job) \<Rightarrow>
            (case mem s job of
               None \<Rightarrow> Inl BadDeref
             | Some j \<Rightarrow>
                 if jobNumber j \<noteq> job_number then Inl Exit1
                 else
                   (let s1 = s\<lparr>mem := (mem s)(job \<mapsto> j\<lparr>lastTime := - 1\<rparr>),
                               cpu := (cpu s)\<lparr>jobs := (jobs (cpu s))[nat core_id := None]\<rparr>\<rparr>
                    in case priqueue_offer (compare s1) (mQueue s1) job of
                         Inl f \<Rightarrow> Inl f
                       | Inr (q, _) \<Rightarrow> Inr (s1\<lparr>mQueue := q\<rparr>, job)))))"

text \<open>
  The loop of \<^verbatim>\<open>cpuCorePreempt\<close>: \<open>i\<close> is the index of the first entry of the list,
  the last two arguments are \<^verbatim>\<open>currCompare\<close> and \<^verbatim>\<open>cpuIndex\<close>.
\<close>

fun cpuCorePreempt_loop ::
  "sched \<Rightarrow> ptr \<Rightarrow> int \<Rightarrow> ptr option list \<Rightarrow> int \<Rightarrow> int \<Rightarrow> fault + int"
where
  "cpuCorePreempt_loop s job i [] currCompare cpuIndex = Inr cpuIndex"
| "cpuCorePreempt_loop s job i (None # rest) currCompare cpuIndex = Inl NullDeref"
| "cpuCorePreempt_loop s job i (Some occ # rest) currCompare cpuIndex =
    (case compare s job occ of
       Inl f \<Rightarrow> Inl f
     | Inr prevCompare \<Rightarrow>
         if prevCompare < currCompare then cpuCorePreempt_loop s job (i + 1) rest prevCompare i
         else if prevCompare = currCompare then
           (if cpuIndex \<noteq> - 1 then
              (case core_job s cpuIndex of
                 Inl f \<Rightarrow> Inl f
               | Inr chosen \<Rightarrow>
                   (case mem s occ of
                      None \<Rightarrow> Inl BadDeref
                    | Some current \<Rightarrow>
                        if arrivalTime chosen < arrivalTime current
                        then cpuCorePreempt_loop s job (i + 1) rest currCompare i
                        else cpuCorePreempt_loop s job (i + 1) rest currCompare cpuIndex))
            else cpuCorePreempt_loop s job (i + 1) rest currCompare cpuIndex)
         else cpuCorePreempt_loop s job (i + 1) rest currCompare cpuIndex)"

definition cpuCorePreempt :: "ptr \<Rightarrow> sched \<Rightarrow> fault + (sched \<times> int)" where
  "cpuCorePreempt job s =
    (case cpuCoresAvailable s of
       Inl f \<Rightarrow> Inl f
     | Inr avail \<Rightarrow>
         if avail \<noteq> - 1 then Inl Exit1
         else
           (case cpuCorePreempt_loop s job 0 (visited s) 0 (- 1) of
              Inl f \<Rightarrow> Inl f
            | Inr cpuIndex \<Rightarrow>
                if cpuIndex \<ge> 0 then
                  (case core_job s cpuIndex of
                     Inl f \<Rightarrow> Inl f
                   | Inr victim \<Rightarrow>
                       (case cpuCoreRemoveJob cpuIndex (jobNumber victim) s of
                          Inl f \<Rightarrow> Inl f
                        | Inr (s1, _) \<Rightarrow>
                            (case cpuCoreAssignJob cpuIndex job s1 of
                               Inl f \<Rightarrow> Inl f
                             | Inr (s2, _) \<Rightarrow> Inr (s2, cpuIndex))))
                else Inr (s, cpuIndex)))"


subsection \<open>Values of type double and float\<close>

text \<open>
  A value of a binary floating-point type is a real number \<open>m * 2 ^ e\<close>, with an integer
  \<open>m\<close> of at most \<open>p\<close> bits and an exponent \<open>e\<close> that the format bounds, or an infinity;
  \<^verbatim>\<open>double\<close> has \<open>p = 53\<close> and \<^verbatim>\<open>float\<close> has \<open>p = 24\<close>. An operation returns the
  exact result rounded to the nearest value of the format, and to the one with even \<open>m\<close>
  when two are equally near. No operation of the scheduler produces a value that is not a
  number, and the sign of a zero is not modelled.
\<close>

datatype floating = Finite real | PlusInfinity | MinusInfinity

text \<open>The exponent \<open>e\<close> with \<open>2 ^ e \<le> \<bar>x\<bar> < 2 ^ (e + 1)\<close>, for \<open>x\<close> other than zero.\<close>

definition binade :: "real \<Rightarrow> int" where
  "binade x = (if 1 \<le> \<bar>x\<bar> then bitlen \<lfloor>\<bar>x\<bar>\<rfloor> - 1 else - bitlen (\<lceil>1 / \<bar>x\<bar>\<rceil> - 1))"

text \<open>The nearest integer, the even one of two that are equally near.\<close>

definition round_even :: "real \<Rightarrow> int" where
  "round_even x =
     (let f = \<lfloor>x\<rfloor>
      in if x - of_int f < 1 / 2 then f
         else if 1 / 2 < x - of_int f then f + 1
         else if even f then f else f + 1)"

text \<open>
  Rounding to the format with \<open>p\<close> bits of precision whose normal numbers have the
  exponents \<open>emin\<close> to \<open>emax\<close>: the values near \<open>x\<close> are the multiples of \<open>ulp\<close>, which below
  \<open>2 ^ emin\<close> does not shrink any further; a result of magnitude \<open>2 ^ (emax + 1)\<close> or more
  is an infinity.
\<close>

definition round_to_format :: "nat \<Rightarrow> int \<Rightarrow> int \<Rightarrow> real \<Rightarrow> floating" where
  "round_to_format p emin emax x =
     (if x = 0 then Finite 0
      else
        (let e = max (binade x) emin;
             ulp = 2 powi (e - int p + 1);
             r = of_int (round_even (x / ulp)) * ulp
         in if 2 powi (emax + 1) \<le> \<bar>r\<bar>
            then (if 0 < x then PlusInfinity else MinusInfinity)
            else Finite r))"

text \<open>
  The division of two finite values of type \<^verbatim>\<open>double\<close> by a divisor other than zero,
  and the conversion of a \<^verbatim>\<open>double\<close> to \<^verbatim>\<open>float\<close>.
\<close>

definition double_div :: "real \<Rightarrow> real \<Rightarrow> floating" where
  "double_div x y = round_to_format 53 (- 1022) 1023 (x / y)"

fun to_float :: "floating \<Rightarrow> floating" where
  "to_float (Finite d) = round_to_format 24 (- 126) 127 d"
| "to_float PlusInfinity = PlusInfinity"
| "to_float MinusInfinity = MinusInfinity"

text \<open>
  The values of a format, zero among them: the numbers below \<open>2 ^ (emax + 1)\<close> in
  magnitude that are a whole multiple of the unit in the last place of their binade. A
  value of the format is nearest to \<open>x\<close> when no value of the format is nearer.
\<close>

definition format_value :: "nat \<Rightarrow> int \<Rightarrow> int \<Rightarrow> real \<Rightarrow> bool" where
  "format_value p emin emax x \<longleftrightarrow>
     \<bar>x\<bar> < 2 powi (emax + 1) \<and>
     (let ulp = 2 powi (max (binade x) emin - int p + 1)
      in of_int \<lfloor>x / ulp\<rfloor> = x / ulp)"

definition nearest_value :: "nat \<Rightarrow> int \<Rightarrow> int \<Rightarrow> real \<Rightarrow> real \<Rightarrow> bool" where
  "nearest_value p emin emax x r \<longleftrightarrow>
     format_value p emin emax r \<and>
     (\<forall>f. format_value p emin emax f \<longrightarrow> \<bar>r - x\<bar> \<le> \<bar>f - x\<bar>)"

subsection \<open>The interface of the scheduler\<close>

text \<open>The calls of \<^verbatim>\<open>printf\<close> are left out, the reads they make are not.\<close>

definition scheduler_start_up :: "int \<Rightarrow> scheme_t \<Rightarrow> sched \<Rightarrow> fault + sched" where
  "scheduler_start_up cores scheme s =
    cpuUpdateTime 0 (s\<lparr>curScheme := scheme, mQueue := priqueue_init, cpu := cpuInit cores\<rparr>)"

definition scheduler_new_job :: "int \<Rightarrow> int \<Rightarrow> int \<Rightarrow> int \<Rightarrow> sched \<Rightarrow> fault + (sched \<times> int)" where
  "scheduler_new_job job_number time running_time priority' s =
    (case cpuUpdateTime time s of
       Inl f \<Rightarrow> Inl f
     | Inr s1 \<Rightarrow>
         (let job = brk s1;
              s2 = s1\<lparr>mem := (mem s1)(job \<mapsto>
                          \<lparr>jobNumber = job_number, arrivalTime = time, runTime = running_time,
                           remainingTime = running_time, priority = priority',
                           initTime = - 1, lastTime = - 1\<rparr>),
                       brk := brk s1 + 1\<rparr>
          in case cpuCoresAvailable s2 of
               Inl f \<Rightarrow> Inl f
             | Inr workingCore \<Rightarrow>
                 (case core_slot s2 0 of
                    Inl f \<Rightarrow> Inl f
                  | Inr first \<Rightarrow>
                      if first \<noteq> None \<and> core_job s2 0 = Inl BadDeref then Inl BadDeref
                      else if workingCore \<noteq> - 1 then
                        (case cpuCoreAssignJob workingCore job s2 of
                           Inl f \<Rightarrow> Inl f
                         | Inr (s3, _) \<Rightarrow> Inr (s3, workingCore))
                      else if curScheme s2 = PSJF \<or> curScheme s2 = PPRI then
                        (case cpuCorePreempt job s2 of
                           Inl f \<Rightarrow> Inl f
                         | Inr (s3, workingCore') \<Rightarrow>
                             if workingCore' = - 1 then
                               (case priqueue_offer (compare s3) (mQueue s3) job of
                                  Inl f \<Rightarrow> Inl f
                                | Inr (q, _) \<Rightarrow> Inr (s3\<lparr>mQueue := q\<rparr>, workingCore'))
                             else Inr (s3, workingCore'))
                      else
                        (case priqueue_offer (compare s2) (mQueue s2) job of
                           Inl f \<Rightarrow> Inl f
                         | Inr (q, _) \<Rightarrow> Inr (s2\<lparr>mQueue := q\<rparr>, - 1)))))"

text \<open>
  The part that \<^verbatim>\<open>scheduler_job_finished\<close> and \<^verbatim>\<open>scheduler_quantum_expired\<close> end
  with: poll the queue and give the job, if there is one, to the core.
\<close>

definition poll_and_assign :: "int \<Rightarrow> sched \<Rightarrow> fault + (sched \<times> int)" where
  "poll_and_assign core_id s =
    (case priqueue_poll (mQueue s) of
       (q, None) \<Rightarrow> Inr (s\<lparr>mQueue := q\<rparr>, - 1)
     | (q, Some job) \<Rightarrow>
         (case cpuCoreAssignJob core_id job (s\<lparr>mQueue := q\<rparr>) of
            Inl f \<Rightarrow> Inl f
          | Inr (s', _) \<Rightarrow>
              (case mem s' job of
                 None \<Rightarrow> Inl BadDeref
               | Some j \<Rightarrow> Inr (s', jobNumber j))))"

definition scheduler_job_finished :: "int \<Rightarrow> int \<Rightarrow> int \<Rightarrow> sched \<Rightarrow> fault + (sched \<times> int)" where
  "scheduler_job_finished core_id job_number time s =
    (case cpuUpdateTime time s of
       Inl f \<Rightarrow> Inl f
     | Inr s1 \<Rightarrow>
         (case cpuCoreRemoveJob core_id job_number s1 of
            Inl f \<Rightarrow> Inl f
          | Inr (s2, job) \<Rightarrow>
              (case priqueue_remove (mQueue s2) job of
                 Inl f \<Rightarrow> Inl f
               | Inr (q, _) \<Rightarrow>
                   (case mem s2 job of
                      None \<Rightarrow> Inl BadDeref
                    | Some j \<Rightarrow>
                        poll_and_assign core_id
                          (s2\<lparr>mQueue := q,
                              totalWaitTime := totalWaitTime s2
                                + real_of_int (currentTime s2 - arrivalTime j - runTime j),
                              numWaiting := numWaiting s2 + 1,
                              totalTurnAroundTime := totalTurnAroundTime s2
                                + real_of_int (currentTime s2 - arrivalTime j),
                              numTurnAround := numTurnAround s2 + 1,
                              mem := (mem s2)(job := None)\<rparr>)))))"

definition scheduler_quantum_expired :: "int \<Rightarrow> int \<Rightarrow> sched \<Rightarrow> fault + (sched \<times> int)" where
  "scheduler_quantum_expired core_id time s =
    (case cpuUpdateTime time s of
       Inl f \<Rightarrow> Inl f
     | Inr s1 \<Rightarrow>
         (case core_job s1 core_id of
            Inl f \<Rightarrow> Inl f
          | Inr running \<Rightarrow>
              (case cpuCoreRemoveJob core_id (jobNumber running) s1 of
                 Inl f \<Rightarrow> Inl f
               | Inr (s2, _) \<Rightarrow> poll_and_assign core_id s2)))"

text \<open>
  Each of the three functions divides a \<^verbatim>\<open>double\<close> by an \<^verbatim>\<open>int\<close>, which is converted to
  \<^verbatim>\<open>double\<close> without loss, and returns the quotient as a \<^verbatim>\<open>float\<close>.
\<close>

definition scheduler_average_waiting_time :: "sched \<Rightarrow> floating" where
  "scheduler_average_waiting_time s =
    (if numWaiting s \<noteq> 0
     then to_float (double_div (totalWaitTime s) (real_of_int (numWaiting s)))
     else Finite 0)"

definition scheduler_average_turnaround_time :: "sched \<Rightarrow> floating" where
  "scheduler_average_turnaround_time s =
    (if numTurnAround s \<noteq> 0
     then to_float (double_div (totalTurnAroundTime s) (real_of_int (numTurnAround s)))
     else Finite 0)"

definition scheduler_average_response_time :: "sched \<Rightarrow> floating" where
  "scheduler_average_response_time s =
    (if numResponse s \<noteq> 0
     then to_float (double_div (totalRespTime s) (real_of_int (numResponse s)))
     else Finite 0)"

text \<open>
  \<^verbatim>\<open>scheduler_clean_up\<close> polls the queue until it is empty and frees every job it
  gets; then it frees the array of cores and the queue.
\<close>

fun clean_up_loop :: "ptr list \<Rightarrow> int \<Rightarrow> (ptr \<Rightarrow> job_t option) \<Rightarrow> int \<times> (ptr \<Rightarrow> job_t option)" where
  "clean_up_loop [] sz m = (sz, m)"
| "clean_up_loop (job # rest) sz m = clean_up_loop rest (sz - 1) (m(job := None))"

definition scheduler_clean_up :: "sched \<Rightarrow> sched" where
  "scheduler_clean_up s =
    (case clean_up_loop (head (mQueue s)) (size_q (mQueue s)) (mem s) of
       (sz, m) \<Rightarrow> s\<lparr>mQueue := \<lparr>head = [], size_q = sz\<rparr>, mem := m, cpu := (cpu s)\<lparr>jobs := []\<rparr>\<rparr>)"


subsection \<open>The driver\<close>

text \<open>
  The driver calls the scheduler with one event after the other. An event is valid in a
  state when its time is not before the clock and, for the two events that name a core,
  the core is one of the scheduler's and holds a job (for \<open>JobFinished\<close>, the job with
  the number given). Nothing is asked of the times at which jobs arrive beyond this, nor
  of the scheme under which a quantum expires.
\<close>

datatype event =
    NewJob int int int int
  | JobFinished int int int
  | QuantumExpired int int

fun handle :: "event \<Rightarrow> sched \<Rightarrow> fault + (sched \<times> int)" where
  "handle (NewJob job_number time running_time priority') s =
     scheduler_new_job job_number time running_time priority' s"
| "handle (JobFinished core_id job_number time) s =
     scheduler_job_finished core_id job_number time s"
| "handle (QuantumExpired core_id time) s = scheduler_quantum_expired core_id time s"

fun valid_event :: "sched \<Rightarrow> event \<Rightarrow> bool" where
  "valid_event s (NewJob job_number time running_time priority') = (currentTime s \<le> time)"
| "valid_event s (JobFinished core_id job_number time) =
     (currentTime s \<le> time \<and> core_id < nCores (cpu s) \<and>
      (case core_job s core_id of Inl f \<Rightarrow> False | Inr j \<Rightarrow> jobNumber j = job_number))"
| "valid_event s (QuantumExpired core_id time) =
     (currentTime s \<le> time \<and> core_id < nCores (cpu s) \<and>
      (case core_job s core_id of Inl f \<Rightarrow> False | Inr j \<Rightarrow> True))"

fun run :: "event list \<Rightarrow> sched \<Rightarrow> fault + sched" where
  "run [] s = Inr s"
| "run (e # es) s = (case handle e s of Inl f \<Rightarrow> Inl f | Inr (s', r) \<Rightarrow> run es s')"

text \<open>
  A sequence of events is valid from a state when each event is valid in the state in
  which the scheduler receives it. (Where a handler faults there is no such state, and
  nothing is asked of the events that follow.)
\<close>

fun valid_events :: "event list \<Rightarrow> sched \<Rightarrow> bool" where
  "valid_events [] s = True"
| "valid_events (e # es) s =
     (valid_event s e \<and> (case handle e s of Inl f \<Rightarrow> True | Inr (s', r) \<Rightarrow> valid_events es s'))"

text \<open>The time that an event carries.\<close>

fun event_time :: "event \<Rightarrow> int" where
  "event_time (NewJob job_number time running_time priority') = time"
| "event_time (JobFinished core_id job_number time) = time"
| "event_time (QuantumExpired core_id time) = time"

subsection \<open>Where the jobs are\<close>

fun somes :: "'a option list \<Rightarrow> 'a list" where
  "somes [] = []"
| "somes (None # xs) = somes xs"
| "somes (Some x # xs) = x # somes xs"

text \<open>The pointers in the ready queue followed by the pointers in the cores.\<close>

definition holders :: "sched \<Rightarrow> ptr list" where
  "holders s = head (mQueue s) @ somes (jobs (cpu s))"

text \<open>
  An allocated job occurs exactly once among the entries of the queue and the cores; an
  address that is not allocated (no job yet, or a job that has finished and was freed)
  occurs in neither.
\<close>

definition one_container :: "sched \<Rightarrow> bool" where
  "one_container s \<longleftrightarrow>
     (\<forall>p. count_list (head (mQueue s)) p + count_list (somes (jobs (cpu s))) p
            = (if mem s p = None then 0 else 1))"

text \<open>
  The shape of the state. Inside a handler a job may be in transit, held by a local
  variable and by no container; \<open>pending\<close> lists those jobs. Between two calls there
  is none.
\<close>

definition inv_struct_with :: "ptr list \<Rightarrow> sched \<Rightarrow> bool" where
  "inv_struct_with pending s \<longleftrightarrow>
     wf_queue (mQueue s) \<and>
     0 < nCores (cpu s) \<and> nCores (cpu s) = int (length (jobs (cpu s))) \<and>
     distinct (pending @ holders s) \<and>
     set (pending @ holders s) = dom (mem s) \<and>
     (\<forall>p\<in>dom (mem s). p < brk s)"

definition inv_struct :: "sched \<Rightarrow> bool" where
  "inv_struct s \<longleftrightarrow> inv_struct_with [] s"

text \<open>
  What the fields of a job say between two calls: \<open>runTime j - remainingTime j\<close> is the
  time the job has run, all of it after arrival and after \<open>initTime j\<close> once that is set.
\<close>

definition job_times_ok :: "int \<Rightarrow> job_t \<Rightarrow> bool" where
  "job_times_ok now j \<longleftrightarrow>
     arrivalTime j \<le> now \<and>
     arrivalTime j + (runTime j - remainingTime j) \<le> now \<and>
     (initTime j = - 1 \<longrightarrow> remainingTime j = runTime j) \<and>
     (initTime j \<noteq> - 1 \<longrightarrow>
        0 \<le> initTime j \<and> arrivalTime j \<le> initTime j \<and>
        initTime j + (runTime j - remainingTime j) \<le> now)"

definition inv_time :: "sched \<Rightarrow> bool" where
  "inv_time s \<longleftrightarrow>
     0 \<le> currentTime s \<and>
     (\<forall>p j. mem s p = Some j \<longrightarrow>
        job_times_ok (currentTime s) j \<and>
        (p \<in> set (somes (jobs (cpu s))) \<longrightarrow> lastTime j = currentTime s) \<and>
        (p \<in> set (head (mQueue s)) \<longrightarrow> lastTime j = - 1))"

definition sched_inv :: "sched \<Rightarrow> bool" where
  "sched_inv s \<longleftrightarrow> inv_struct s \<and> inv_time s"


text \<open>
  What a call keeps of the jobs. No address is given out twice: an address below \<open>brk\<close>
  that holds no job holds none afterwards. A job that is still allocated afterwards has
  the arrival time and the service it had and, once set, the first dispatch time it
  had.
\<close>

definition keeps :: "sched \<Rightarrow> sched \<Rightarrow> bool" where
  "keeps s s' \<longleftrightarrow>
     brk s \<le> brk s' \<and>
     (\<forall>p<brk s.
        (mem s p = None \<longrightarrow> mem s' p = None) \<and>
        (\<forall>j j'. mem s p = Some j \<longrightarrow> mem s' p = Some j' \<longrightarrow>
           arrivalTime j' = arrivalTime j \<and> runTime j' = runTime j \<and>
           (initTime j \<noteq> - 1 \<longrightarrow> initTime j' = initTime j)))"

subsection \<open>Start-up, time-advance and admission in closed form\<close>

text \<open>The state in which \<^verbatim>\<open>scheduler_start_up\<close> leaves the initial globals.\<close>

definition started :: "int \<Rightarrow> scheme_t \<Rightarrow> sched" where
  "started cores scheme =
     initial_globals\<lparr>curScheme := scheme, mQueue := priqueue_init, cpu := cpuInit cores,
                     currentTime := 0\<rparr>"


text \<open>
  The jobs that \<^verbatim>\<open>cpuUpdateTime\<close> counts as having responded: those in a core whose
  \<open>initTime\<close> is unset and whose \<open>lastTime\<close> differs from the new time.
\<close>

definition responds :: "int \<Rightarrow> job_t \<Rightarrow> bool" where
  "responds time j \<longleftrightarrow> initTime j = - 1 \<and> lastTime j \<noteq> time"

definition responders :: "int \<Rightarrow> ptr list \<Rightarrow> (ptr \<Rightarrow> job_t option) \<Rightarrow> ptr list" where
  "responders time ps m = filter (\<lambda>p. case m p of None \<Rightarrow> False | Some j \<Rightarrow> responds time j) ps"

definition response_of :: "(ptr \<Rightarrow> job_t option) \<Rightarrow> ptr \<Rightarrow> int" where
  "response_of m p = (case m p of None \<Rightarrow> 0 | Some j \<Rightarrow> lastTime j - arrivalTime j)"

definition advanced_mem :: "int \<Rightarrow> ptr list \<Rightarrow> (ptr \<Rightarrow> job_t option) \<Rightarrow> ptr \<Rightarrow> job_t option" where
  "advanced_mem time ps m = (\<lambda>p. if p \<in> set ps then map_option (cpuUpdateTime_job time) (m p) else m p)"

definition advanced :: "int \<Rightarrow> sched \<Rightarrow> sched" where
  "advanced time s =
     s\<lparr>currentTime := time,
       totalRespTime := totalRespTime s
         + real_of_int (sum_list (map (response_of (mem s)) (responders time (somes (jobs (cpu s))) (mem s)))),
       numResponse := numResponse s + int (length (responders time (somes (jobs (cpu s))) (mem s))),
       mem := advanced_mem time (somes (jobs (cpu s))) (mem s)\<rparr>"

text \<open>
  The job that \<^verbatim>\<open>scheduler_new_job\<close> builds, and the state in which it looks for a
  core: the time has advanced and the job is allocated at the address \<open>brk s\<close>.
\<close>

definition new_job_record :: "int \<Rightarrow> int \<Rightarrow> int \<Rightarrow> int \<Rightarrow> job_t" where
  "new_job_record job_number time running_time priority' =
     \<lparr>jobNumber = job_number, arrivalTime = time, runTime = running_time,
      remainingTime = running_time, priority = priority', initTime = - 1, lastTime = - 1\<rparr>"

definition admitted :: "int \<Rightarrow> int \<Rightarrow> int \<Rightarrow> int \<Rightarrow> sched \<Rightarrow> sched" where
  "admitted job_number time running_time priority' s =
     (advanced time s)
       \<lparr>mem := (mem (advanced time s))(brk s \<mapsto> new_job_record job_number time running_time priority'),
        brk := brk s + 1\<rparr>"


subsection \<open>What an average is\<close>

text \<open>
  What holds of the value \<open>a\<close> that an average function returns for the accumulated sum
  \<open>acc\<close> and the counter \<open>counter\<close>. It is zero when the counter is zero. Otherwise let
  \<open>q\<close> be the sum divided by the counter. When \<open>q\<close> is a value of type \<^verbatim>\<open>float\<close>, that is
  \<open>m * 2 ^ k\<close> for an integer \<open>m\<close> of at most 24 bits and an exponent \<open>k\<close> of at least -149,
  and below \<open>2 ^ 128\<close> in magnitude, then \<open>a\<close> is \<open>q\<close>. When the magnitude of \<open>q\<close> is below
  \<open>2 ^ 126\<close>, then \<open>a\<close> is a \<^verbatim>\<open>float\<close> nearest to a \<^verbatim>\<open>double\<close> nearest to \<open>q\<close>; and when it
  is also at least \<open>2 ^ -126\<close>, then \<open>a\<close> differs from \<open>q\<close> by at most \<open>\<bar>q\<bar> / 2 ^ 23\<close>.
\<close>

definition rounded_quotient :: "real \<Rightarrow> int \<Rightarrow> int \<Rightarrow> int \<Rightarrow> floating \<Rightarrow> bool" where
  "rounded_quotient acc counter m k a \<longleftrightarrow>
     (let q = acc / real_of_int counter
      in (counter = 0 \<longrightarrow> a = Finite 0) \<and>
         (counter \<noteq> 0 \<and> q = real_of_int m * 2 powi k \<and> \<bar>m\<bar> < 2 ^ 24 \<and> - 149 \<le> k \<and>
            \<bar>q\<bar> < 2 powi 128 \<longrightarrow> a = Finite q) \<and>
         (counter \<noteq> 0 \<and> \<bar>q\<bar> < 2 powi 126 \<longrightarrow>
            (\<exists>d. nearest_value 53 (- 1022) 1023 q d \<and>
               (case a of Finite r \<Rightarrow> nearest_value 24 (- 126) 127 d r | _ \<Rightarrow> False))) \<and>
         (counter \<noteq> 0 \<and> 2 powi (- 126) \<le> \<bar>q\<bar> \<and> \<bar>q\<bar> < 2 powi 126 \<longrightarrow>
            (case a of Finite r \<Rightarrow> \<bar>r - q\<bar> \<le> \<bar>q\<bar> / 2 ^ 23 | _ \<Rightarrow> False)))"

subsection \<open>The state of the scan for a core to preempt\<close>

text \<open>
  What \<^verbatim>\<open>currCompare\<close> and \<^verbatim>\<open>cpuIndex\<close> are when the loop of \<^verbatim>\<open>cpuCorePreempt\<close>
  has looked at the cores below \<open>n\<close>, for the candidate \<open>cand\<close>: either no core has
  been chosen and none of the occupants makes \<^verbatim>\<open>compare\<close> negative; or
  the chosen core's occupant gives the least (negative) value seen, and among the
  occupants that give this value it has arrived last.
\<close>

definition scan_ok :: "sched \<Rightarrow> job_t \<Rightarrow> nat \<Rightarrow> int \<Rightarrow> int \<Rightarrow> bool" where
  "scan_ok s cand n currCompare cpuIndex \<longleftrightarrow>
     (cpuIndex = - 1 \<and> currCompare = 0 \<and>
      (\<forall>k<n. \<forall>j. core_job s (int k) = Inr j \<longrightarrow> 0 \<le> compare_jobs (curScheme s) cand j))
     \<or>
     (0 \<le> cpuIndex \<and> nat cpuIndex < n \<and> currCompare < 0 \<and>
      (\<exists>v. core_job s cpuIndex = Inr v \<and> compare_jobs (curScheme s) cand v = currCompare \<and>
         (\<forall>k<n. \<forall>j. core_job s (int k) = Inr j \<longrightarrow>
            currCompare \<le> compare_jobs (curScheme s) cand j \<and>
            (compare_jobs (curScheme s) cand j = currCompare \<longrightarrow> arrivalTime j \<le> arrivalTime v))))"


subsection \<open>Example states and an example run\<close>

text \<open>
  One core, clock at 0: job 1 (address 0; arrived at 0, 5 units of service) runs
  on the core since 0 and has not yet been counted as responding.
\<close>

definition one_running :: sched where
  "one_running =
     initial_globals
       \<lparr>cpu := \<lparr>nCores = 1, jobs = [Some 0]\<rparr>,
        mem := (\<lambda>p. None)(0 \<mapsto> \<lparr>jobNumber = 1, arrivalTime = 0, runTime = 5, remainingTime = 5,
                                 priority = 0, initTime = - 1, lastTime = 0\<rparr>),
        brk := 1\<rparr>"

text \<open>
  One core under RR, clock at 1: job 1 (address 0; arrived at 0) runs, job 2
  (address 1; arrived at 1) waits in the queue.
\<close>

definition one_running_one_waiting :: sched where
  "one_running_one_waiting =
     initial_globals
       \<lparr>curScheme := RR,
        mQueue := \<lparr>head = [1], size_q = 1\<rparr>,
        cpu := \<lparr>nCores = 1, jobs = [Some 0]\<rparr>,
        currentTime := 1,
        totalRespTime := 0, numResponse := 1,
        mem := (\<lambda>p. None)(0 \<mapsto> \<lparr>jobNumber = 1, arrivalTime = 0, runTime = 5, remainingTime = 4,
                                 priority = 0, initTime = 0, lastTime = 1\<rparr>,
                            1 \<mapsto> \<lparr>jobNumber = 2, arrivalTime = 1, runTime = 3, remainingTime = 3,
                                 priority = 0, initTime = - 1, lastTime = - 1\<rparr>),
        brk := 2\<rparr>"

text \<open>
  Two cores under PPRI, clock at 0: job 1 (address 0, priority 3) runs on core 0 and
  job 2 (address 1, priority 1) on core 1; the queue is empty.
\<close>

definition two_running :: sched where
  "two_running =
     initial_globals
       \<lparr>curScheme := PPRI,
        cpu := \<lparr>nCores = 2, jobs = [Some 0, Some 1]\<rparr>,
        mem := (\<lambda>p. None)(0 \<mapsto> \<lparr>jobNumber = 1, arrivalTime = 0, runTime = 10, remainingTime = 10,
                                 priority = 3, initTime = - 1, lastTime = 0\<rparr>,
                            1 \<mapsto> \<lparr>jobNumber = 2, arrivalTime = 0, runTime = 10, remainingTime = 10,
                                 priority = 1, initTime = - 1, lastTime = 0\<rparr>),
        brk := 2\<rparr>"

text \<open>
  A run on one core under FCFS: job 1 arrives at 0 and takes the core, job 2 arrives at
  1 and waits, job 1 finishes at 5, job 2 finishes at 8.
\<close>

definition fcfs_run :: "event list" where
  "fcfs_run = [NewJob 1 0 5 0, NewJob 2 1 3 0, JobFinished 0 1 5, JobFinished 0 2 8]"


text \<open>
  Two arrivals on two cores under PSJF: job 1 (one unit of service) arrives at 0 and is
  never reported as finished, job 2 (1000 units) arrives at 2147483000. In the state
  after the two calls the clock is at 2147483000, job 1 (address 0) holds core 0 with
  a remaining time far below zero, and job 2 (address 1) holds core 1.
\<close>

definition overdue_run :: "event list" where
  "overdue_run = [NewJob 1 0 1 0, NewJob 2 2147483000 1000 0]"

definition two_overdue :: sched where
  "two_overdue =
     initial_globals
       \<lparr>curScheme := PSJF,
        cpu := \<lparr>nCores = 2, jobs = [Some 0, Some 1]\<rparr>,
        currentTime := 2147483000,
        totalRespTime := 0, numResponse := 1,
        mem := (\<lambda>p. None)(0 \<mapsto> \<lparr>jobNumber = 1, arrivalTime = 0, runTime = 1,
                                 remainingTime = - 2147482999, priority = 0, initTime = 0,
                                 lastTime = 2147483000\<rparr>,
                            1 \<mapsto> \<lparr>jobNumber = 2, arrivalTime = 2147483000, runTime = 1000,
                                 remainingTime = 1000, priority = 0, initTime = - 1,
                                 lastTime = 2147483000\<rparr>),
        brk := 2\<rparr>"

text \<open>
  The state after the first three events of \<open>fcfs_run\<close>: the clock is at 5, job 1 has
  finished and its address 0 is free, job 2 (address 1; arrived at 1, 3 units of service)
  holds the core since 5.
\<close>

definition second_running :: sched where
  "second_running =
     initial_globals
       \<lparr>cpu := \<lparr>nCores = 1, jobs = [Some 1]\<rparr>,
        currentTime := 5,
        totalWaitTime := 0, numWaiting := 1,
        totalRespTime := 0, numResponse := 1,
        totalTurnAroundTime := 5, numTurnAround := 1,
        mem := (\<lambda>p. None)(1 \<mapsto> \<lparr>jobNumber = 2, arrivalTime = 1, runTime = 3, remainingTime = 3,
                                 priority = 0, initTime = - 1, lastTime = 5\<rparr>),
        brk := 2\<rparr>"

text \<open>
  A run on one core under FCFS with three jobs: job 1 (3 units of service) arrives at 0
  and finishes at 3, job 2 (4 units) arrives at 1 and finishes at 7, job 3 (1 unit)
  arrives at 2 and finishes at 8. The waits are 0, 2 and 5, the turnarounds 3, 6 and 6.
\<close>

definition three_jobs_run :: "event list" where
  "three_jobs_run =
     [NewJob 1 0 3 0, NewJob 2 1 4 0, NewJob 3 2 1 0,
      JobFinished 0 1 3, JobFinished 0 2 7, JobFinished 0 3 8]"

text \<open>The state after \<open>three_jobs_run\<close>: the core is idle and every job has been freed.\<close>

definition three_jobs_done :: sched where
  "three_jobs_done =
     initial_globals
       \<lparr>cpu := \<lparr>nCores = 1, jobs = [None]\<rparr>,
        currentTime := 8,
        totalWaitTime := 7, numWaiting := 3,
        totalRespTime := 7, numResponse := 3,
        totalTurnAroundTime := 15, numTurnAround := 3,
        brk := 3\<rparr>"

section \<open>The queue: what \<open>priqueue_offer\<close> computes\<close>




lemma offer_traverse_returns:
  "l \<noteq> [] \<Longrightarrow> i + int (length l) \<le> sz \<Longrightarrow> \<forall>x\<in>set (tl l). cmp ptr x = Inr (c x) \<Longrightarrow>
   offer_traverse cmp ptr sz i l =
     Inr (Some (hd l # takeWhile (\<lambda>x. 0 \<le> c x) (tl l) @ ptr # dropWhile (\<lambda>x. 0 \<le> c x) (tl l),
                i + 1 + int (length (takeWhile (\<lambda>x. 0 \<le> c x) (tl l)))))"
proof (induction l arbitrary: i)
  case Nil
  then show ?case by simp
next
  case (Cons t rest)
  show ?case
  proof (cases rest)
    case Nil
    with Cons.prems show ?thesis by simp
  next
    case (Cons nxt more)
    with Cons.prems have "(i + 1) + int (length rest) \<le> sz" "rest \<noteq> []"
      "\<forall>x\<in>set (tl rest). cmp ptr x = Inr (c x)" by simp_all
    then have "offer_traverse cmp ptr sz (i + 1) rest =
        Inr (Some (hd rest # takeWhile (\<lambda>x. 0 \<le> c x) (tl rest) @ ptr # dropWhile (\<lambda>x. 0 \<le> c x) (tl rest),
                (i + 1) + 1 + int (length (takeWhile (\<lambda>x. 0 \<le> c x) (tl rest)))))"
      by (intro Cons.IH)
    with Cons Cons.prems show ?thesis
      by (simp add: not_less)
  qed
qed

lemma priqueue_offer_returns:
  assumes "wf_queue q" and "\<forall>x\<in>set (head q). cmp ptr x = Inr (c x)"
  shows "priqueue_offer cmp q ptr =
     Inr (q\<lparr>head := takeWhile (\<lambda>x. 0 \<le> c x) (head q) @ ptr # dropWhile (\<lambda>x. 0 \<le> c x) (head q),
            size_q := size_q q + 1\<rparr>,
          int (length (takeWhile (\<lambda>x. 0 \<le> c x) (head q))))"
proof (cases "head q")
  case Nil
  with assms show ?thesis by (simp add: priqueue_offer_def wf_queue_def)
next
  case (Cons h rest)
  with assms have nz: "size_q q \<noteq> 0" by (simp add: wf_queue_def)
  have "0 + int (length (head q)) \<le> size_q q" "head q \<noteq> []" "\<forall>x\<in>set (tl (head q)). cmp ptr x = Inr (c x)"
    using assms Cons by (simp_all add: wf_queue_def)
  then have "offer_traverse cmp ptr (size_q q) 0 (head q) =
     Inr (Some (hd (head q) # takeWhile (\<lambda>x. 0 \<le> c x) (tl (head q)) @ ptr # dropWhile (\<lambda>x. 0 \<le> c x) (tl (head q)),
                0 + 1 + int (length (takeWhile (\<lambda>x. 0 \<le> c x) (tl (head q))))))"
    by (intro offer_traverse_returns)
  with Cons nz assms(2) show ?thesis
    by (simp add: priqueue_offer_def not_less)
qed

lemma offer_traverse_index:
  "offer_traverse cmp ptr sz i l = Inr (Some (l', k)) \<Longrightarrow> i < k"
proof (induction l arbitrary: i l' k)
  case Nil
  then show ?case by simp
next
  case (Cons t rest)
  show ?case
  proof (cases rest)
    case Nil
    with Cons.prems show ?thesis by (simp split: if_splits)
  next
    case rest: (Cons nxt more)
    show ?thesis
    proof (cases "offer_traverse cmp ptr sz (i + 1) rest")
      case (Inl f)
      with Cons.prems rest show ?thesis
        by (simp split: if_splits sum.splits)
    next
      case (Inr r)
      show ?thesis
      proof (cases r)
        case None
        with Inr Cons.prems rest show ?thesis
          by (simp split: if_splits sum.splits)
      next
        case (Some lk)
        obtain l2 k2 where lk: "lk = (l2, k2)" by (cases lk)
        with Some Inr have "offer_traverse cmp ptr sz (i + 1) rest = Inr (Some (l2, k2))" by simp
        then have "i + 1 < k2" by (rule Cons.IH)
        with Cons.prems rest Inr Some lk show ?thesis
          by (simp split: if_splits sum.splits)
      qed
    qed
  qed
qed

lemma offer_traverse_inserts:
  "l \<noteq> [] \<Longrightarrow> i + int (length l) \<le> sz \<Longrightarrow> offer_traverse cmp ptr sz i l \<noteq> Inr None"
proof (induction l arbitrary: i)
  case Nil
  then show ?case by simp
next
  case (Cons t rest)
  show ?case
  proof (cases rest)
    case Nil
    with Cons.prems show ?thesis by simp
  next
    case (Cons nxt more)
    with Cons.prems have "(i + 1) + int (length rest) \<le> sz" "rest \<noteq> []" by simp_all
    from Cons.IH [OF this(2) this(1)] Cons Cons.prems show ?thesis
      by (auto split: sum.splits option.splits)
  qed
qed


section \<open>C10: the error return of \<open>priqueue_offer\<close>\<close>

text \<open>
  Claim C10. On a well-formed queue (the stored size is the length of the chain),
  \<open>priqueue_offer\<close> with a comparer that returns inserts the element through one of
  its three insertion branches: it returns an index between 0 and the old size, the
  element is in the new chain, the counter has grown by one and the queue is again
  well-formed. The final \<^verbatim>\<open>return -1\<close> is not reached, whatever the comparer does.
\<close>

theorem priqueue_offer_minus_one_unreachable:
  assumes "wf_queue q"
  shows "(\<exists>q' k. priqueue_offer (\<lambda>a b. Inr (c a b)) q ptr = Inr (q', k) \<and> 0 \<le> k \<and> k \<le> size_q q
            \<and> ptr \<in> set (head q') \<and> size_q q' = size_q q + 1 \<and> wf_queue q')
         \<and> (\<forall>cmp q'. priqueue_offer cmp q ptr \<noteq> Inr (q', - 1))"
proof
  let ?P = "\<lambda>x. 0 \<le> c ptr x"
  have eq: "priqueue_offer (\<lambda>a b. Inr (c a b)) q ptr =
     Inr (q\<lparr>head := takeWhile ?P (head q) @ ptr # dropWhile ?P (head q), size_q := size_q q + 1\<rparr>,
          int (length (takeWhile ?P (head q))))"
    using assms by (intro priqueue_offer_returns) simp_all
  have "length (takeWhile ?P (head q)) \<le> length (head q)" by (rule length_takeWhile_le)
  moreover have "length (takeWhile ?P (head q) @ ptr # dropWhile ?P (head q)) = length (head q) + 1"
    using takeWhile_dropWhile_id [of ?P "head q"]
    by (metis Suc_eq_plus1 add_Suc_right length_Cons length_append)
  ultimately show "\<exists>q' k. priqueue_offer (\<lambda>a b. Inr (c a b)) q ptr = Inr (q', k) \<and> 0 \<le> k \<and> k \<le> size_q q
            \<and> ptr \<in> set (head q') \<and> size_q q' = size_q q + 1 \<and> wf_queue q'"
    using eq assms by (simp add: wf_queue_def)
next
  show "\<forall>cmp q'. priqueue_offer cmp q ptr \<noteq> Inr (q', - 1)"
  proof (intro allI notI)
    fix cmp q'
    assume a: "priqueue_offer cmp q ptr = Inr (q', - 1)"
    show False
    proof (cases "head q")
      case Nil
      with assms a show False by (simp add: priqueue_offer_def wf_queue_def)
    next
      case (Cons h rest)
      with assms have nz: "size_q q \<noteq> 0" by (simp add: wf_queue_def)
      have "0 + int (length (head q)) \<le> size_q q" "head q \<noteq> []"
        using assms Cons by (simp_all add: wf_queue_def)
      from offer_traverse_inserts [OF this(2) this(1)]
      have ni: "offer_traverse cmp ptr (size_q q) 0 (head q) \<noteq> Inr None" .
      from a nz Cons ni show False
        by (auto simp: priqueue_offer_def simp del: offer_traverse.simps
                 split: sum.splits if_splits option.splits
                 dest: offer_traverse_index)
    qed
  qed
qed

theorem priqueue_offer_minus_one_unreachable_witness:
  "wf_queue \<lparr>head = [1, 3 :: int], size_q = 2\<rparr> \<and>
   (\<exists>q' k. priqueue_offer (\<lambda>a b. Inr (a - b)) \<lparr>head = [1, 3 :: int], size_q = 2\<rparr> 2 = Inr (q', k)
      \<and> 0 \<le> k \<and> k \<le> 2 \<and> 2 \<in> set (head q') \<and> size_q q' = 3 \<and> wf_queue q')"
proof -
  have h: "wf_queue \<lparr>head = [1, 3 :: int], size_q = 2\<rparr>" by (simp add: wf_queue_def)
  from priqueue_offer_minus_one_unreachable [OF h, of "\<lambda>a b. a - b" 2] h show ?thesis by simp
qed

section \<open>C6: sorted, stable insertion\<close>



section \<open>C3: \<open>priqueue_remove_at\<close>\<close>

lemma walk_drop: "n < length l \<Longrightarrow> walk n l = Inr (drop n l)"
  by (induction n l rule: walk.induct) simp_all

text \<open>
  From the second position on, \<open>priqueue_remove_at\<close> does what its documentation says:
  it unlinks the element, returns it and decrements the counter.
\<close>

lemma priqueue_remove_at_behind_head:
  assumes "wf_queue q" and "0 < i" and "i < size_q q"
  shows "priqueue_remove_at q i =
    Inr (q\<lparr>head := take (nat i) (head q) @ drop (Suc (nat i)) (head q), size_q := size_q q - 1\<rparr>,
         Some (head q ! nat i))"
proof -
  from assms have lt: "nat i < length (head q)" by (simp add: wf_queue_def)
  then have "walk (nat i) (head q) = Inr (drop (nat i) (head q))" by (rule walk_drop)
  moreover from lt have "drop (nat i) (head q) = head q ! nat i # drop (Suc (nat i)) (head q)"
    by (simp add: Cons_nth_drop_Suc)
  ultimately show ?thesis using assms by (simp add: priqueue_remove_at_def)
qed

text \<open>
  At index 0 the loop does not run, \<^verbatim>\<open>prev\<close> is still NULL, and the write to
  \<^verbatim>\<open>prev->nextNode\<close> goes through NULL: on no queue does the call return the head.
\<close>

lemma priqueue_remove_at_0:
  "priqueue_remove_at q 0 = (if 0 < size_q q then Inl NullDeref else Inr (q, None))"
  by (simp add: priqueue_remove_at_def split: list.splits)

text \<open>
  Claim C3 says that \<open>remove_at(i)\<close> removes and returns the element for every index
  \<open>0 \<le> i < size\<close>, index 0 of a non-empty queue included. The code at that input:
  the queue with the one element 7, index 0. The call faults; nothing is returned.
\<close>

theorem priqueue_remove_at_head_faults:
  "priqueue_remove_at \<lparr>head = [7 :: nat], size_q = 1\<rparr> 0 = Inl NullDeref"
  by (simp add: priqueue_remove_at_def)

section \<open>C4: \<open>priqueue_at\<close>\<close>

text \<open>Inside the range the element at the position is returned; from \<open>size\<close> on, NULL.\<close>

lemma priqueue_at_in_range:
  assumes "wf_queue q" and "0 \<le> i" and "i < size_q q"
  shows "priqueue_at q i = Inr (Some (head q ! nat i))"
proof -
  from assms have lt: "nat i < length (head q)" by (simp add: wf_queue_def)
  then have "walk (nat i) (head q) = Inr (drop (nat i) (head q))" by (rule walk_drop)
  moreover from lt have "drop (nat i) (head q) = head q ! nat i # drop (Suc (nat i)) (head q)"
    by (simp add: Cons_nth_drop_Suc)
  ultimately show ?thesis using assms by (simp add: priqueue_at_def)
qed

lemma priqueue_at_beyond: "size_q q \<le> i \<Longrightarrow> priqueue_at q i = Inr None"
  by (simp add: priqueue_at_def)

text \<open>
  The only test is \<^verbatim>\<open>index < q->size\<close>, which a negative index passes. The loop does not
  run and the head is read: a non-empty queue returns its first element, an empty
  queue reads through NULL.
\<close>

lemma priqueue_at_negative:
  "wf_queue q \<Longrightarrow> i < 0 \<Longrightarrow>
   priqueue_at q i = (case head q of [] \<Rightarrow> Inl NullDeref | x # _ \<Rightarrow> Inr (Some x))"
  by (simp add: priqueue_at_def wf_queue_def split: list.splits)

text \<open>
  Claim C4 says that \<open>at(i)\<close> returns NULL for every index outside \<open>[0, size)\<close>, negative
  indices included, on empty and non-empty queues. The code at index \<open>-1\<close>: on the
  queue with the one element 7 it returns that element, and on the empty queue it
  faults.
\<close>

theorem priqueue_at_negative_index:
  "priqueue_at \<lparr>head = [7 :: nat], size_q = 1\<rparr> (- 1) = Inr (Some 7) \<and>
   priqueue_at \<lparr>head = ([] :: nat list), size_q = 0\<rparr> (- 1) = Inl NullDeref"
  by (simp add: priqueue_at_def)

section \<open>The scheduler: basic facts\<close>

lemma set_somes: "set (somes xs) = {x. Some x \<in> set xs}"
  by (induction xs rule: somes.induct) auto

lemma somes_replicate_None: "somes (replicate n None) = []"
  by (induction n) simp_all

lemma somes_append: "somes (xs @ ys) = somes xs @ somes ys"
  by (induction xs rule: somes.induct) simp_all

lemma somes_update:
  "i < length xs \<Longrightarrow> somes (xs[i := v]) = somes (take i xs) @ somes [v] @ somes (drop (Suc i) xs)"
proof -
  assume "i < length xs"
  then have "xs[i := v] = take i xs @ [v] @ drop (Suc i) xs"
    by (simp add: upd_conv_take_nth_drop)
  then show ?thesis by (simp only: somes_append)
qed

lemma somes_split:
  "i < length xs \<Longrightarrow> somes xs = somes (take i xs) @ somes [xs ! i] @ somes (drop (Suc i) xs)"
proof -
  assume "i < length xs"
  then have "xs = take i xs @ [xs ! i] @ drop (Suc i) xs"
    by (simp add: id_take_nth_drop)
  then have "somes xs = somes (take i xs @ [xs ! i] @ drop (Suc i) xs)" by simp
  then show ?thesis by (simp only: somes_append)
qed

lemma compare_valid:
  "mem s a = Some ja \<Longrightarrow> mem s b = Some jb \<Longrightarrow> compare s a b = Inr (compare_jobs (curScheme s) ja jb)"
  by (simp add: compare_def)

lemma advanced_mem_step:
  assumes "p \<notin> set ps" and "m p = Some j"
  shows "advanced_mem time ps (m(p \<mapsto> cpuUpdateTime_job time j)) = advanced_mem time (p # ps) m"
  using assms by (auto simp: advanced_mem_def fun_eq_iff)

lemma responders_step:
  assumes "p \<notin> set ps"
  shows "responders time ps (m(p \<mapsto> j')) = responders time ps m"
  using assms unfolding responders_def by (intro filter_cong) auto

lemma response_of_step:
  assumes "p \<notin> set ps"
  shows "map (response_of (m(p \<mapsto> j'))) (responders time ps m) = map (response_of m) (responders time ps m)"
  using assms unfolding responders_def response_of_def by (intro map_cong) auto

lemma cpuUpdateTime_loop_closed:
  "distinct (somes slots) \<Longrightarrow> set (somes slots) \<subseteq> dom (mem s) \<Longrightarrow>
   cpuUpdateTime_loop time slots s =
     Inr (s\<lparr>totalRespTime := totalRespTime s
               + real_of_int (sum_list (map (response_of (mem s)) (responders time (somes slots) (mem s)))),
            numResponse := numResponse s + int (length (responders time (somes slots) (mem s))),
            mem := advanced_mem time (somes slots) (mem s)\<rparr>)"
proof (induction time slots s rule: cpuUpdateTime_loop.induct)
  case (1 time s)
  show ?case by (simp add: responders_def advanced_mem_def)
next
  case (2 time rest s)
  then show ?case by simp
next
  case (3 time p rest s)
  from "3.prems" obtain j where j: "mem s p = Some j" by auto
  from "3.prems" have np: "p \<notin> set (somes rest)" and d: "distinct (somes rest)" by simp_all
  let ?s1 = "(if initTime j = - 1 \<and> lastTime j \<noteq> time
             then s\<lparr>totalRespTime := totalRespTime s + real_of_int (lastTime j - arrivalTime j),
                    numResponse := numResponse s + 1\<rparr>
             else s)\<lparr>mem := (mem s)(p \<mapsto> cpuUpdateTime_job time j)\<rparr>"
  have sub: "set (somes rest) \<subseteq> dom (mem ?s1)" using "3.prems" by auto
  have ih: "cpuUpdateTime_loop time rest ?s1 =
     Inr (?s1\<lparr>totalRespTime := totalRespTime ?s1
               + real_of_int (sum_list (map (response_of (mem ?s1)) (responders time (somes rest) (mem ?s1)))),
            numResponse := numResponse ?s1 + int (length (responders time (somes rest) (mem ?s1))),
            mem := advanced_mem time (somes rest) (mem ?s1)\<rparr>)"
    by (rule "3.IH" [OF j d sub])
  have m1: "mem ?s1 = (mem s)(p \<mapsto> cpuUpdateTime_job time j)" by simp
  have a: "advanced_mem time (somes rest) ((mem s)(p \<mapsto> cpuUpdateTime_job time j))
           = advanced_mem time (p # somes rest) (mem s)"
    using np j by (rule advanced_mem_step)
  have r: "responders time (somes rest) ((mem s)(p \<mapsto> cpuUpdateTime_job time j))
           = responders time (somes rest) (mem s)"
    using np by (rule responders_step)
  have ro: "map (response_of ((mem s)(p \<mapsto> cpuUpdateTime_job time j))) (responders time (somes rest) (mem s))
           = map (response_of (mem s)) (responders time (somes rest) (mem s))"
    using np by (rule response_of_step)
  have hd: "responders time (p # somes rest) (mem s) =
      (if responds time j then p # responders time (somes rest) (mem s)
       else responders time (somes rest) (mem s))"
    using j by (simp add: responders_def)
  have rp: "response_of (mem s) p = lastTime j - arrivalTime j"
    using j by (simp add: response_of_def)
  show ?case
    unfolding cpuUpdateTime_loop.simps j option.case ih m1 a r ro somes.simps hd
    by (simp add: rp responds_def)
qed


section \<open>The time-advance\<close>

lemma inv_struct_withD:
  assumes "inv_struct_with pending s"
  shows "wf_queue (mQueue s)" "0 < nCores (cpu s)" "nCores (cpu s) = int (length (jobs (cpu s)))"
    "distinct (pending @ holders s)" "set (pending @ holders s) = dom (mem s)"
    "\<And>p j. mem s p = Some j \<Longrightarrow> p < brk s"
  using assms unfolding inv_struct_with_def by auto

lemma visited_all: "nCores (cpu s) = int (length (jobs (cpu s))) \<Longrightarrow> visited s = jobs (cpu s)"
  by (simp add: visited_def)

lemma not_overrun: "nCores (cpu s) = int (length (jobs (cpu s))) \<Longrightarrow> \<not> overrun s"
  by (simp add: overrun_def)

lemma cpuUpdateTime_closed:
  assumes "inv_struct_with pending s"
  shows "cpuUpdateTime time s = Inr (advanced time s)"
proof -
  note i = inv_struct_withD [OF assms]
  let ?s0 = "s\<lparr>currentTime := time\<rparr>"
  from i(4) have d: "distinct (somes (jobs (cpu s)))" by (simp add: holders_def)
  from i(5) have sub: "set (somes (jobs (cpu s))) \<subseteq> dom (mem ?s0)" by (auto simp: holders_def)
  have "cpuUpdateTime_loop time (jobs (cpu s)) ?s0 =
     Inr (?s0\<lparr>totalRespTime := totalRespTime ?s0
               + real_of_int (sum_list (map (response_of (mem ?s0)) (responders time (somes (jobs (cpu s))) (mem ?s0)))),
            numResponse := numResponse ?s0 + int (length (responders time (somes (jobs (cpu s))) (mem ?s0))),
            mem := advanced_mem time (somes (jobs (cpu s))) (mem ?s0)\<rparr>)"
    using d sub by (rule cpuUpdateTime_loop_closed)
  then show ?thesis
    using i(3) by (simp add: cpuUpdateTime_def visited_all not_overrun advanced_def)
qed

lemma advanced_fields [simp]:
  "curScheme (advanced time s) = curScheme s"
  "mQueue (advanced time s) = mQueue s"
  "cpu (advanced time s) = cpu s"
  "brk (advanced time s) = brk s"
  "currentTime (advanced time s) = time"
  "totalWaitTime (advanced time s) = totalWaitTime s"
  "numWaiting (advanced time s) = numWaiting s"
  "totalTurnAroundTime (advanced time s) = totalTurnAroundTime s"
  "numTurnAround (advanced time s) = numTurnAround s"
  "mem (advanced time s) = advanced_mem time (somes (jobs (cpu s))) (mem s)"
  by (simp_all add: advanced_def)

lemma dom_advanced_mem [simp]: "dom (advanced_mem time ps m) = dom m"
  by (auto simp: advanced_mem_def dom_def split: if_splits)

lemma holders_advanced [simp]: "holders (advanced time s) = holders s"
  by (simp add: holders_def)

lemma inv_struct_with_advanced:
  "inv_struct_with pending s \<Longrightarrow> inv_struct_with pending (advanced time s)"
  unfolding inv_struct_with_def advanced_fields holders_advanced dom_advanced_mem by assumption

lemma advanced_mem_core:
  "p \<in> set ps \<Longrightarrow> m p = Some j \<Longrightarrow> advanced_mem time ps m p = Some (cpuUpdateTime_job time j)"
  by (simp add: advanced_mem_def)

lemma advanced_mem_other: "p \<notin> set ps \<Longrightarrow> advanced_mem time ps m p = m p"
  by (simp add: advanced_mem_def)

lemma job_times_ok_mono: "job_times_ok now j \<Longrightarrow> now \<le> now' \<Longrightarrow> job_times_ok now' j"
  by (auto simp: job_times_ok_def)

lemma job_times_ok_advance:
  assumes "job_times_ok now j" and "lastTime j = now" and "0 \<le> now" and "now \<le> time"
  shows "job_times_ok time (cpuUpdateTime_job time j)"
  using assms by (auto simp: job_times_ok_def cpuUpdateTime_job_def Let_def)

lemma lastTime_advance [simp]: "lastTime (cpuUpdateTime_job time j) = time"
  by (simp add: cpuUpdateTime_job_def Let_def)

lemma inv_time_advanced:
  assumes "inv_time s" and "currentTime s \<le> time"
    and d: "distinct (holders s)"
  shows "inv_time (advanced time s)"
  unfolding inv_time_def
proof (intro conjI allI impI)
  from assms show "0 \<le> currentTime (advanced time s)" by (simp add: inv_time_def)
next
  fix p j'
  assume m: "mem (advanced time s) p = Some j'"
  show "job_times_ok (currentTime (advanced time s)) j'"
  proof (cases "p \<in> set (somes (jobs (cpu s)))")
    case True
    with m obtain j where j: "mem s p = Some j" and j': "j' = cpuUpdateTime_job time j"
      by (auto simp: advanced_mem_def)
    from assms(1) j True have "job_times_ok (currentTime s) j" "lastTime j = currentTime s" "0 \<le> currentTime s"
      by (auto simp: inv_time_def)
    with assms(2) j' show ?thesis by (simp add: job_times_ok_advance)
  next
    case False
    with m have "mem s p = Some j'" by (simp add: advanced_mem_def)
    with assms(1) have "job_times_ok (currentTime s) j'" by (auto simp: inv_time_def)
    with assms(2) show ?thesis by (simp add: job_times_ok_mono)
  qed
next
  fix p j'
  assume m: "mem (advanced time s) p = Some j'"
    and c: "p \<in> set (somes (jobs (cpu (advanced time s))))"
  then show "lastTime j' = currentTime (advanced time s)"
    by (auto simp: advanced_mem_def)
next
  fix p j'
  assume m: "mem (advanced time s) p = Some j'"
    and q: "p \<in> set (head (mQueue (advanced time s)))"
  from q d have "p \<notin> set (somes (jobs (cpu s)))" by (auto simp: holders_def)
  with m have "mem s p = Some j'" by (simp add: advanced_mem_def)
  with assms(1) q show "lastTime j' = - 1" by (auto simp: inv_time_def)
qed


section \<open>The operations on the queue and the cores, in closed form\<close>

lemma priqueue_offer_splits:
  assumes "wf_queue q" and "\<forall>x\<in>set (head q). cmp ptr x = Inr (c x)"
  shows "\<exists>pre post. head q = pre @ post \<and>
     priqueue_offer cmp q ptr = Inr (q\<lparr>head := pre @ ptr # post, size_q := size_q q + 1\<rparr>, int (length pre))"
proof -
  let ?pre = "takeWhile (\<lambda>x. 0 \<le> c x) (head q)" and ?post = "dropWhile (\<lambda>x. 0 \<le> c x) (head q)"
  have "head q = ?pre @ ?post" by simp
  moreover have "priqueue_offer cmp q ptr =
      Inr (q\<lparr>head := ?pre @ ptr # ?post, size_q := size_q q + 1\<rparr>, int (length ?pre))"
    using assms by (rule priqueue_offer_returns)
  ultimately show ?thesis by blast
qed

lemma offer_job:
  assumes "wf_queue (mQueue s)" and "mem s job = Some j" and "set (head (mQueue s)) \<subseteq> dom (mem s)"
  shows "\<exists>pre post. head (mQueue s) = pre @ post \<and>
     priqueue_offer (compare s) (mQueue s) job =
       Inr ((mQueue s)\<lparr>head := pre @ job # post, size_q := size_q (mQueue s) + 1\<rparr>, int (length pre))"
proof -
  have "\<forall>x\<in>set (head (mQueue s)).
          compare s job x = Inr (case mem s x of None \<Rightarrow> 0 | Some jx \<Rightarrow> compare_jobs (curScheme s) j jx)"
    using assms(2,3) by (auto simp: compare_def dom_def split: option.splits)
  with assms(1) show ?thesis by (rule priqueue_offer_splits)
qed

lemma offer_job_RR:
  assumes "wf_queue (mQueue s)" and "mem s job = Some j" and "set (head (mQueue s)) \<subseteq> dom (mem s)"
    and "curScheme s = RR"
  shows "priqueue_offer (compare s) (mQueue s) job =
       Inr ((mQueue s)\<lparr>head := head (mQueue s) @ [job], size_q := size_q (mQueue s) + 1\<rparr>,
            int (length (head (mQueue s))))"
proof -
  have "\<forall>x\<in>set (head (mQueue s)). compare s job x = Inr ((\<lambda>x. 0) x)"
    using assms(2,3,4) by (auto simp: compare_def compare_jobs_def dom_def split: option.splits)
  with assms(1) have "priqueue_offer (compare s) (mQueue s) job =
     Inr ((mQueue s)\<lparr>head := takeWhile (\<lambda>x. 0 \<le> (\<lambda>x. 0 :: int) x) (head (mQueue s)) @ job
                 # dropWhile (\<lambda>x. 0 \<le> (\<lambda>x. 0 :: int) x) (head (mQueue s)),
            size_q := size_q (mQueue s) + 1\<rparr>,
          int (length (takeWhile (\<lambda>x. 0 \<le> (\<lambda>x. 0 :: int) x) (head (mQueue s)))))"
    by (rule priqueue_offer_returns)
  moreover have "takeWhile (\<lambda>x. True) (head (mQueue s)) = head (mQueue s)"
    by (induction "head (mQueue s)") simp_all
  moreover have "dropWhile (\<lambda>x. True) (head (mQueue s)) = []"
    by (induction "head (mQueue s)") simp_all
  ultimately show ?thesis by simp
qed

lemma cpuCoreAssignJob_closed:
  assumes "0 \<le> k" and "k < int (length (jobs (cpu s)))" and "jobs (cpu s) ! nat k = None"
    and "mem s job = Some j"
  shows "cpuCoreAssignJob k job s =
     Inr (s\<lparr>cpu := (cpu s)\<lparr>jobs := (jobs (cpu s))[nat k := Some job]\<rparr>,
            mem := (mem s)(job \<mapsto> j\<lparr>lastTime := currentTime s\<rparr>)\<rparr>, job)"
  using assms by (simp add: cpuCoreAssignJob_def core_slot_def)

lemma remove_rest_closed:
  "remove_rest ptr ys sz n =
     (removeAll ptr ys, sz - int (count_list ys ptr), n + int (count_list ys ptr))"
  by (induction ys arbitrary: sz n) simp_all

lemma remove_front_closed:
  "sz = int (length xs) \<Longrightarrow>
   remove_front ptr sz xs n =
     Inr (dropWhile (\<lambda>x. x = ptr) xs, sz - int (length (takeWhile (\<lambda>x. x = ptr) xs)),
          n + int (length (takeWhile (\<lambda>x. x = ptr) xs)))"
proof (induction xs arbitrary: sz n)
  case Nil
  then show ?case by simp
next
  case (Cons x xs)
  show ?case
  proof (cases "x = ptr")
    case True
    from Cons.prems have "sz - 1 = int (length xs)" by simp
    from Cons.IH [OF this] True Cons.prems show ?thesis by simp
  next
    case False
    then show ?thesis by simp
  qed
qed

lemma removeAll_takeWhile_dropWhile:
  "removeAll p xs = removeAll p (dropWhile (\<lambda>x. x = p) xs)"
  by (induction xs) auto

lemma count_list_takeWhile_dropWhile:
  "count_list xs p = length (takeWhile (\<lambda>x. x = p) xs) + count_list (dropWhile (\<lambda>x. x = p) xs) p"
  by (induction xs) simp_all

lemma length_removeAll_count: "length (removeAll p xs) + count_list xs p = length xs"
  by (induction xs) simp_all

lemma priqueue_remove_closed:
  assumes "wf_queue q"
  shows "priqueue_remove q p =
    Inr (q\<lparr>head := removeAll p (head q), size_q := int (length (removeAll p (head q)))\<rparr>,
         int (count_list (head q) p))"
proof -
  let ?tw = "takeWhile (\<lambda>x. x = p) (head q)" and ?dw = "dropWhile (\<lambda>x. x = p) (head q)"
  from assms have sz: "size_q q = int (length (head q))" by (simp add: wf_queue_def)
  then have rf: "remove_front p (size_q q) (head q) 0 =
      Inr (?dw, size_q q - int (length ?tw), 0 + int (length ?tw))"
    by (rule remove_front_closed)
  have ra: "removeAll p (head q) = removeAll p ?dw" by (rule removeAll_takeWhile_dropWhile)
  have cnt: "count_list (head q) p = length ?tw + count_list ?dw p"
    by (rule count_list_takeWhile_dropWhile)
  have len: "length (removeAll p (head q)) + count_list (head q) p = length (head q)"
    by (rule length_removeAll_count)
  show ?thesis
  proof (cases ?dw)
    case Nil
    with ra cnt len sz rf show ?thesis by (simp add: priqueue_remove_def)
  next
    case (Cons x xs)
    have xp: "x \<noteq> p" using Cons hd_dropWhile [of "\<lambda>x. x = p" "head q"] by simp
    with Cons ra have ra': "removeAll p (head q) = x # removeAll p xs" by simp
    from Cons xp cnt have cnt': "int (count_list (head q) p) = int (length ?tw) + int (count_list xs p)" by simp
    from len ra' have len': "int (length (removeAll p xs)) + 1 + int (count_list (head q) p) = int (length (head q))"
      by simp
    from rf Cons ra' cnt' len' sz show ?thesis
      by (simp add: priqueue_remove_def remove_rest_closed)
  qed
qed


section \<open>The other queue operations keep the order\<close>

text \<open>
  Polling and removing take elements out of the chain and leave the others in their
  order, so a sorted, well-formed queue stays sorted and well-formed.
\<close>

lemma priqueue_init_sorted: "wf_queue priqueue_init \<and> sorted_wrt R (head priqueue_init)"
  by (simp add: priqueue_init_def wf_queue_def)

lemma priqueue_poll_sorted:
  assumes "wf_queue q" and "sorted_wrt R (head q)"
  shows "wf_queue (fst (priqueue_poll q)) \<and> sorted_wrt R (head (fst (priqueue_poll q)))"
  using assms by (cases "head q") (simp_all add: priqueue_poll_def wf_queue_def)

lemma removeAll_as_filter: "removeAll p xs = filter (\<lambda>x. x \<noteq> p) xs"
  by (induction xs) auto

lemma priqueue_remove_sorted:
  assumes "wf_queue q" and "sorted_wrt R (head q)"
  shows "\<exists>q' n. priqueue_remove q p = Inr (q', n) \<and> wf_queue q' \<and> sorted_wrt R (head q')"
proof -
  from assms(2) have "sorted_wrt R (removeAll p (head q))"
    unfolding removeAll_as_filter by (rule sorted_wrt_filter)
  with priqueue_remove_closed [OF assms(1), of p] show ?thesis by (simp add: wf_queue_def)
qed

lemma priqueue_remove_at_sorted:
  assumes "wf_queue q" and "sorted_wrt R (head q)" and "0 < i" and "i < size_q q"
  shows "\<exists>q' x. priqueue_remove_at q i = Inr (q', Some x) \<and> wf_queue q' \<and> sorted_wrt R (head q')"
proof -
  from assms(1,3,4) have lt: "nat i < length (head q)" by (simp add: wf_queue_def)
  have "head q = take (nat i) (head q) @ head q ! nat i # drop (Suc (nat i)) (head q)"
    using lt by (simp add: id_take_nth_drop [symmetric])
  with assms(2) have "sorted_wrt R (take (nat i) (head q) @ head q ! nat i # drop (Suc (nat i)) (head q))"
    by simp
  then have "sorted_wrt R (take (nat i) (head q) @ drop (Suc (nat i)) (head q))"
    by (simp add: sorted_wrt_append)
  with priqueue_remove_at_behind_head [OF assms(1,3,4)] assms(1) lt show ?thesis
    by (simp add: wf_queue_def)
qed


section \<open>The shape of the state is kept by every operation\<close>

lemma mset_somes_update:
  assumes "i < length xs"
  shows "mset (somes (xs[i := v])) + mset (somes [xs ! i]) = mset (somes xs) + mset (somes [v])"
proof -
  have a: "somes (xs[i := v]) = somes (take i xs) @ somes [v] @ somes (drop (Suc i) xs)"
    using assms by (rule somes_update)
  have b: "mset (somes xs) = mset (somes (take i xs) @ somes [xs ! i] @ somes (drop (Suc i) xs))"
    using somes_split [OF assms] by simp
  show ?thesis unfolding a b mset_append by (simp add: ac_simps)
qed

lemma inv_struct_with_perm:
  assumes "inv_struct_with ex s"
    and "wf_queue (mQueue s')"
    and "nCores (cpu s') = nCores (cpu s)" and "length (jobs (cpu s')) = length (jobs (cpu s))"
    and "mset (ex' @ holders s') = mset (ex @ holders s)"
    and "dom (mem s') = dom (mem s)" and "brk s \<le> brk s'"
  shows "inv_struct_with ex' s'"
proof -
  note i = inv_struct_withD [OF assms(1)]
  from assms(5) i(4) have "distinct (ex' @ holders s')"
    by (metis mset_eq_imp_distinct_iff)
  moreover from assms(5) i(5) assms(6) have "set (ex' @ holders s') = dom (mem s')"
    by (metis mset_eq_setD)
  moreover have "\<forall>p\<in>dom (mem s'). p < brk s'"
    using i(6) assms(6,7) by (fastforce simp: dom_def)
  ultimately show ?thesis
    using i(1-3) assms(2-4) by (simp add: inv_struct_with_def)
qed

lemma inv_struct_offer:
  assumes "inv_struct_with (job # ex) s" and "head (mQueue s) = pre @ post"
  shows "inv_struct_with ex
     (s\<lparr>mQueue := (mQueue s)\<lparr>head := pre @ job # post, size_q := size_q (mQueue s) + 1\<rparr>\<rparr>)"
proof (rule inv_struct_with_perm [OF assms(1)])
  from inv_struct_withD(1) [OF assms(1)] assms(2)
  show "wf_queue (mQueue (s\<lparr>mQueue := (mQueue s)\<lparr>head := pre @ job # post, size_q := size_q (mQueue s) + 1\<rparr>\<rparr>))"
    by (simp add: wf_queue_def)
  show "mset (ex @ holders (s\<lparr>mQueue := (mQueue s)\<lparr>head := pre @ job # post, size_q := size_q (mQueue s) + 1\<rparr>\<rparr>))
        = mset ((job # ex) @ holders s)"
    using assms(2) by (simp add: holders_def)
qed simp_all

lemma inv_struct_assign:
  assumes "inv_struct_with (job # ex) s" and "k < length (jobs (cpu s))" and "jobs (cpu s) ! k = None"
  shows "inv_struct_with ex
     (s\<lparr>cpu := (cpu s)\<lparr>jobs := (jobs (cpu s))[k := Some job]\<rparr>, mem := (mem s)(job \<mapsto> j')\<rparr>)"
proof (rule inv_struct_with_perm [OF assms(1)])
  let ?s' = "s\<lparr>cpu := (cpu s)\<lparr>jobs := (jobs (cpu s))[k := Some job]\<rparr>, mem := (mem s)(job \<mapsto> j')\<rparr>"
  from mset_somes_update [OF assms(2), of "Some job"] assms(3)
  have "mset (somes ((jobs (cpu s))[k := Some job])) = add_mset job (mset (somes (jobs (cpu s))))"
    by simp
  then show "mset (ex @ holders ?s') = mset ((job # ex) @ holders s)"
    by (simp add: holders_def)
  from inv_struct_withD(5) [OF assms(1)] have "job \<in> dom (mem s)" by auto
  then show "dom (mem ?s') = dom (mem s)" by auto
  from inv_struct_withD(1) [OF assms(1)] show "wf_queue (mQueue ?s')" by simp
qed simp_all

lemma inv_struct_unassign:
  assumes "inv_struct_with ex s" and "c < length (jobs (cpu s))" and "jobs (cpu s) ! c = Some p"
  shows "inv_struct_with (p # ex)
     (s\<lparr>mem := (mem s)(p \<mapsto> j'), cpu := (cpu s)\<lparr>jobs := (jobs (cpu s))[c := None]\<rparr>\<rparr>)"
proof (rule inv_struct_with_perm [OF assms(1)])
  let ?s' = "s\<lparr>mem := (mem s)(p \<mapsto> j'), cpu := (cpu s)\<lparr>jobs := (jobs (cpu s))[c := None]\<rparr>\<rparr>"
  from mset_somes_update [OF assms(2), of None] assms(3)
  have m: "add_mset p (mset (somes ((jobs (cpu s))[c := None]))) = mset (somes (jobs (cpu s)))"
    by simp
  then show "mset ((p # ex) @ holders ?s') = mset (ex @ holders s)"
    by (simp add: holders_def)
  from m have "p \<in> set (somes (jobs (cpu s)))" by (metis set_mset_mset union_single_eq_member)
  with inv_struct_withD(5) [OF assms(1)] have "p \<in> dom (mem s)" by (auto simp: holders_def)
  then show "dom (mem ?s') = dom (mem s)" by auto
  from inv_struct_withD(1) [OF assms(1)] show "wf_queue (mQueue ?s')" by simp
qed simp_all

lemma inv_struct_poll:
  assumes "inv_struct_with ex s" and "head (mQueue s) = p # rest"
  shows "inv_struct_with (p # ex)
     (s\<lparr>mQueue := (mQueue s)\<lparr>head := rest, size_q := size_q (mQueue s) - 1\<rparr>\<rparr>)"
proof (rule inv_struct_with_perm [OF assms(1)])
  let ?s' = "s\<lparr>mQueue := (mQueue s)\<lparr>head := rest, size_q := size_q (mQueue s) - 1\<rparr>\<rparr>"
  from inv_struct_withD(1) [OF assms(1)] assms(2) show "wf_queue (mQueue ?s')"
    by (simp add: wf_queue_def)
  show "mset ((p # ex) @ holders ?s') = mset (ex @ holders s)"
    using assms(2) by (simp add: holders_def)
qed simp_all

lemma inv_struct_dequeue:
  assumes "inv_struct_with ex s" and "p \<in> set (head (mQueue s))"
  shows "inv_struct_with (p # ex)
     (s\<lparr>mQueue := (mQueue s)\<lparr>head := removeAll p (head (mQueue s)),
                              size_q := int (length (removeAll p (head (mQueue s))))\<rparr>\<rparr>)"
proof (rule inv_struct_with_perm [OF assms(1)])
  let ?s' = "s\<lparr>mQueue := (mQueue s)\<lparr>head := removeAll p (head (mQueue s)),
                              size_q := int (length (removeAll p (head (mQueue s))))\<rparr>\<rparr>"
  show "wf_queue (mQueue ?s')" by (simp add: wf_queue_def)
  from inv_struct_withD(4) [OF assms(1)] have "distinct (head (mQueue s))" by (simp add: holders_def)
  then have "removeAll p (head (mQueue s)) = remove1 p (head (mQueue s))"
    by (simp add: distinct_remove1_removeAll)
  with assms(2) have "add_mset p (mset (removeAll p (head (mQueue s)))) = mset (head (mQueue s))"
    by simp
  then show "mset ((p # ex) @ holders ?s') = mset (ex @ holders s)"
    by (simp add: holders_def)
qed simp_all

lemma inv_struct_alloc:
  assumes "inv_struct_with ex s"
  shows "inv_struct_with (brk s # ex) (s\<lparr>mem := (mem s)(brk s \<mapsto> j), brk := brk s + 1\<rparr>)"
proof -
  note i = inv_struct_withD [OF assms]
  have fresh: "brk s \<notin> dom (mem s)" using i(6) by fastforce
  with i(5) have "brk s \<notin> set (ex @ holders s)" by simp
  with i(4) have "distinct ((brk s # ex) @ holders s)" by simp
  moreover from i(5) have "set ((brk s # ex) @ holders s) = insert (brk s) (dom (mem s))" by simp
  moreover have "\<forall>p\<in>insert (brk s) (dom (mem s)). p < brk s + 1"
    using i(6) by (fastforce simp: dom_def)
  ultimately show ?thesis using i(1-3) by (simp add: inv_struct_with_def holders_def)
qed

lemma inv_struct_free:
  assumes "inv_struct_with (p # ex) s"
  shows "inv_struct_with ex (s\<lparr>mem := (mem s)(p := None)\<rparr>)"
proof -
  note i = inv_struct_withD [OF assms]
  from i(4) have "distinct (ex @ holders s)" and "p \<notin> set (ex @ holders s)" by simp_all
  moreover from i(5) \<open>p \<notin> set (ex @ holders s)\<close> have "set (ex @ holders s) = dom (mem s) - {p}" by auto
  moreover have "\<forall>q\<in>dom (mem s) - {p}. q < brk s" using i(6) by (fastforce simp: dom_def)
  ultimately show ?thesis using i(1-3) by (simp add: inv_struct_with_def holders_def)
qed


section \<open>The accounts of time are kept by every operation\<close>

lemma set_somes_update_Some: "set (somes (xs[k := Some x])) \<subseteq> insert x (set (somes xs))"
  by (auto simp: set_somes dest!: set_update_subset_insert [THEN subsetD])

lemma set_somes_update_None: "set (somes (xs[k := None])) \<subseteq> set (somes xs)"
  by (auto simp: set_somes dest!: set_update_subset_insert [THEN subsetD])

lemma inv_timeD:
  assumes "inv_time s" and "mem s p = Some j"
  shows "job_times_ok (currentTime s) j"
    "p \<in> set (somes (jobs (cpu s))) \<Longrightarrow> lastTime j = currentTime s"
    "p \<in> set (head (mQueue s)) \<Longrightarrow> lastTime j = - 1"
  using assms unfolding inv_time_def by blast+

lemma inv_timeI:
  assumes "0 \<le> currentTime s"
    and "\<And>p j. mem s p = Some j \<Longrightarrow> job_times_ok (currentTime s) j"
    and "\<And>p j. mem s p = Some j \<Longrightarrow> p \<in> set (somes (jobs (cpu s))) \<Longrightarrow> lastTime j = currentTime s"
    and "\<And>p j. mem s p = Some j \<Longrightarrow> p \<in> set (head (mQueue s)) \<Longrightarrow> lastTime j = - 1"
  shows "inv_time s"
  using assms unfolding inv_time_def by blast

lemma inv_time_now: "inv_time s \<Longrightarrow> 0 \<le> currentTime s"
  by (simp add: inv_time_def)

lemma job_times_ok_lastTime [simp]: "job_times_ok now (j\<lparr>lastTime := t\<rparr>) = job_times_ok now j"
  by (simp add: job_times_ok_def)

lemma inv_time_offer:
  assumes "inv_time s" and "mem s job = Some j" and "lastTime j = - 1"
    and "head (mQueue s) = pre @ post"
  shows "inv_time (s\<lparr>mQueue := (mQueue s)\<lparr>head := pre @ job # post, size_q := n\<rparr>\<rparr>)"
proof (rule inv_timeI)
  fix p j' assume m: "mem (s\<lparr>mQueue := (mQueue s)\<lparr>head := pre @ job # post, size_q := n\<rparr>\<rparr>) p = Some j'"
    and q: "p \<in> set (head (mQueue (s\<lparr>mQueue := (mQueue s)\<lparr>head := pre @ job # post, size_q := n\<rparr>\<rparr>)))"
  show "lastTime j' = - 1"
  proof (cases "p = job")
    case True
    with m assms(2,3) show ?thesis by simp
  next
    case False
    with q assms(4) have "p \<in> set (head (mQueue s))" by auto
    with m assms(1) show ?thesis by (simp add: inv_timeD(3))
  qed
qed (use assms(1) in \<open>auto simp: inv_time_now dest: inv_timeD\<close>)

lemma inv_time_assign:
  assumes "inv_time s" and "mem s job = Some j" and "job \<notin> set (head (mQueue s))"
  shows "inv_time (s\<lparr>cpu := (cpu s)\<lparr>jobs := (jobs (cpu s))[k := Some job]\<rparr>,
                   mem := (mem s)(job \<mapsto> j\<lparr>lastTime := currentTime s\<rparr>)\<rparr>)"
proof (rule inv_timeI)
  let ?s' = "s\<lparr>cpu := (cpu s)\<lparr>jobs := (jobs (cpu s))[k := Some job]\<rparr>,
                   mem := (mem s)(job \<mapsto> j\<lparr>lastTime := currentTime s\<rparr>)\<rparr>"
  show "0 \<le> currentTime ?s'" using assms(1) by (simp add: inv_time_now)
  fix p j' assume m: "mem ?s' p = Some j'"
  show "job_times_ok (currentTime ?s') j'"
    using m assms(1,2) by (cases "p = job") (auto dest: inv_timeD(1))
  show "lastTime j' = currentTime ?s'" if "p \<in> set (somes (jobs (cpu ?s')))"
  proof (cases "p = job")
    case True
    with m show ?thesis by auto
  next
    case False
    with that set_somes_update_Some [of "jobs (cpu s)" k job] have "p \<in> set (somes (jobs (cpu s)))"
      by auto
    with False m assms(1) show ?thesis by (auto dest: inv_timeD(2))
  qed
  show "lastTime j' = - 1" if "p \<in> set (head (mQueue ?s'))"
  proof -
    from that assms(3) have "p \<noteq> job" by auto
    with m that assms(1) show ?thesis by (auto dest: inv_timeD(3))
  qed
qed

lemma inv_time_unassign:
  assumes "inv_time s" and "mem s p = Some j" and "p \<notin> set (head (mQueue s))"
    and "p \<notin> set (somes ((jobs (cpu s))[c := None]))"
  shows "inv_time (s\<lparr>mem := (mem s)(p \<mapsto> j\<lparr>lastTime := - 1\<rparr>),
                   cpu := (cpu s)\<lparr>jobs := (jobs (cpu s))[c := None]\<rparr>\<rparr>)"
proof (rule inv_timeI)
  let ?s' = "s\<lparr>mem := (mem s)(p \<mapsto> j\<lparr>lastTime := - 1\<rparr>),
                   cpu := (cpu s)\<lparr>jobs := (jobs (cpu s))[c := None]\<rparr>\<rparr>"
  show "0 \<le> currentTime ?s'" using assms(1) by (simp add: inv_time_now)
  fix q j' assume m: "mem ?s' q = Some j'"
  show "job_times_ok (currentTime ?s') j'"
    using m assms(1,2) by (cases "q = p") (auto dest: inv_timeD(1))
  show "lastTime j' = currentTime ?s'" if "q \<in> set (somes (jobs (cpu ?s')))"
  proof -
    from that assms(4) have ne: "q \<noteq> p" by auto
    from that set_somes_update_None [of "jobs (cpu s)" c] have "q \<in> set (somes (jobs (cpu s)))"
      by auto
    with ne m assms(1) show ?thesis by (auto dest: inv_timeD(2))
  qed
  show "lastTime j' = - 1" if "q \<in> set (head (mQueue ?s'))"
  proof -
    from that assms(3) have "q \<noteq> p" by auto
    with m that assms(1) show ?thesis by (auto dest: inv_timeD(3))
  qed
qed

lemma inv_time_shrink_queue:
  assumes "inv_time s" and "set (head q') \<subseteq> set (head (mQueue s))"
  shows "inv_time (s\<lparr>mQueue := q'\<rparr>)"
proof (rule inv_timeI)
  fix p j assume "mem (s\<lparr>mQueue := q'\<rparr>) p = Some j" and "p \<in> set (head (mQueue (s\<lparr>mQueue := q'\<rparr>)))"
  with assms show "lastTime j = - 1" by (auto dest: inv_timeD(3))
qed (use assms(1) in \<open>auto simp: inv_time_now dest: inv_timeD\<close>)

lemma inv_time_alloc:
  assumes "inv_time s" and "p \<notin> set (holders s)" and "job_times_ok (currentTime s) j"
  shows "inv_time (s\<lparr>mem := (mem s)(p \<mapsto> j), brk := b\<rparr>)"
proof (rule inv_timeI)
  let ?s' = "s\<lparr>mem := (mem s)(p \<mapsto> j), brk := b\<rparr>"
  show "0 \<le> currentTime ?s'" using assms(1) by (simp add: inv_time_now)
  fix q j' assume m: "mem ?s' q = Some j'"
  show "job_times_ok (currentTime ?s') j'"
    using m assms(1,3) by (cases "q = p") (auto dest: inv_timeD(1))
  show "lastTime j' = currentTime ?s'" if "q \<in> set (somes (jobs (cpu ?s')))"
  proof -
    from that assms(2) have "q \<noteq> p" by (auto simp: holders_def)
    with m that assms(1) show ?thesis by (auto dest: inv_timeD(2))
  qed
  show "lastTime j' = - 1" if "q \<in> set (head (mQueue ?s'))"
  proof -
    from that assms(2) have "q \<noteq> p" by (auto simp: holders_def)
    with m that assms(1) show ?thesis by (auto dest: inv_timeD(3))
  qed
qed

lemma inv_time_free:
  assumes "inv_time s"
  shows "inv_time (s\<lparr>mem := (mem s)(p := None)\<rparr>)"
proof (rule inv_timeI)
  let ?s' = "s\<lparr>mem := (mem s)(p := None)\<rparr>"
  show "0 \<le> currentTime ?s'" using assms(1) by (simp add: inv_time_now)
  fix q j' assume m: "mem ?s' q = Some j'"
  then have m': "mem s q = Some j'" by (cases "q = p") auto
  from m' assms show "job_times_ok (currentTime ?s') j'" by (auto dest: inv_timeD(1))
  from m' assms show "lastTime j' = currentTime ?s'" if "q \<in> set (somes (jobs (cpu ?s')))"
    using that by (auto dest: inv_timeD(2))
  from m' assms show "lastTime j' = - 1" if "q \<in> set (head (mQueue ?s'))"
    using that by (auto dest: inv_timeD(3))
qed

lemma inv_time_stats [simp]:
  "inv_time (s\<lparr>totalWaitTime := a\<rparr>) = inv_time s"
  "inv_time (s\<lparr>numWaiting := b\<rparr>) = inv_time s"
  "inv_time (s\<lparr>totalTurnAroundTime := c\<rparr>) = inv_time s"
  "inv_time (s\<lparr>numTurnAround := d\<rparr>) = inv_time s"
  by (simp_all add: inv_time_def)

lemma inv_struct_stats [simp]:
  "inv_struct_with ex (s\<lparr>totalWaitTime := a\<rparr>) = inv_struct_with ex s"
  "inv_struct_with ex (s\<lparr>numWaiting := b\<rparr>) = inv_struct_with ex s"
  "inv_struct_with ex (s\<lparr>totalTurnAroundTime := c\<rparr>) = inv_struct_with ex s"
  "inv_struct_with ex (s\<lparr>numTurnAround := d\<rparr>) = inv_struct_with ex s"
  by (simp_all add: inv_struct_with_def holders_def)


section \<open>Looking for an idle core; taking a job off a core\<close>

lemma cpuCoresAvailable_loop_None:
  "(cpuCoresAvailable_loop i slots = None) = (None \<notin> set slots)"
  by (induction i slots rule: cpuCoresAvailable_loop.induct) simp_all

lemma cpuCoresAvailable_loop_Some:
  "cpuCoresAvailable_loop i slots = Some k \<Longrightarrow>
     i \<le> k \<and> nat (k - i) < length slots \<and> slots ! nat (k - i) = None \<and>
     (\<forall>m < nat (k - i). slots ! m \<noteq> None)"
proof (induction i slots rule: cpuCoresAvailable_loop.induct)
  case (1 i)
  then show ?case by simp
next
  case (2 i rest)
  then show ?case by simp
next
  case (3 i p rest)
  from "3.prems" have "cpuCoresAvailable_loop (i + 1) rest = Some k" by simp
  from "3.IH" [OF this] have ih: "i + 1 \<le> k" "nat (k - (i + 1)) < length rest"
    "rest ! nat (k - (i + 1)) = None" "\<forall>m < nat (k - (i + 1)). rest ! m \<noteq> None" by simp_all
  from ih(1) have n: "nat (k - i) = Suc (nat (k - (i + 1)))" by simp
  show ?case unfolding n using ih by (auto simp: less_Suc_eq_0_disj)
qed

lemma cpuCoresAvailable_busy:
  assumes "nCores (cpu s) = int (length (jobs (cpu s)))" and "None \<notin> set (jobs (cpu s))"
  shows "cpuCoresAvailable s = Inr (- 1)"
proof -
  have "cpuCoresAvailable_loop 0 (jobs (cpu s)) = None"
    using cpuCoresAvailable_loop_None [of 0 "jobs (cpu s)"] assms(2) by blast
  with assms(1) show ?thesis
    by (simp add: cpuCoresAvailable_def visited_all not_overrun)
qed

lemma cpuCoresAvailable_idle:
  assumes "nCores (cpu s) = int (length (jobs (cpu s)))" and "None \<in> set (jobs (cpu s))"
  shows "\<exists>k. cpuCoresAvailable s = Inr (int k) \<and> k < length (jobs (cpu s)) \<and>
             jobs (cpu s) ! k = None \<and> (\<forall>m < k. jobs (cpu s) ! m \<noteq> None)"
proof -
  from assms(2) obtain k where k: "cpuCoresAvailable_loop 0 (jobs (cpu s)) = Some k"
    using cpuCoresAvailable_loop_None [of 0 "jobs (cpu s)"] by auto
  from cpuCoresAvailable_loop_Some [OF this]
  have "0 \<le> k" "nat k < length (jobs (cpu s))" "jobs (cpu s) ! nat k = None"
    "\<forall>m < nat k. jobs (cpu s) ! m \<noteq> None" by simp_all
  moreover from k assms(1) \<open>0 \<le> k\<close> have "cpuCoresAvailable s = Inr (int (nat k))"
    by (simp add: cpuCoresAvailable_def visited_all)
  ultimately show ?thesis by blast
qed

lemma core_slot_in_range:
  "k < length (jobs (cpu s)) \<Longrightarrow> core_slot s (int k) = Inr (jobs (cpu s) ! k)"
  by (simp add: core_slot_def)

lemma core_job_Some:
  "k < length (jobs (cpu s)) \<Longrightarrow> jobs (cpu s) ! k = Some p \<Longrightarrow> mem s p = Some j \<Longrightarrow>
   core_job s (int k) = Inr j"
  by (simp add: core_job_def core_slot_def)

lemma core_job_InrD:
  assumes "core_job s c = Inr j"
  shows "0 \<le> c \<and> nat c < length (jobs (cpu s)) \<and> (\<exists>p. jobs (cpu s) ! nat c = Some p \<and> mem s p = Some j)"
  using assms by (auto simp: core_job_def core_slot_def split: if_splits option.splits)

lemma occupant_allocated:
  assumes "inv_struct_with ex s" and "k < length (jobs (cpu s))" and "jobs (cpu s) ! k = Some p"
  shows "\<exists>j. mem s p = Some j"
proof -
  from assms(2,3) have "Some p \<in> set (jobs (cpu s))" by (metis nth_mem)
  then have "p \<in> set (ex @ holders s)" by (simp add: holders_def set_somes)
  with inv_struct_withD(5) [OF assms(1)] show ?thesis by auto
qed

lemma queued_allocated:
  assumes "inv_struct_with ex s"
  shows "set (head (mQueue s)) \<subseteq> dom (mem s)"
  using inv_struct_withD(5) [OF assms] by (auto simp: holders_def)

lemma pending_allocated:
  assumes "inv_struct_with (p # ex) s"
  shows "\<exists>j. mem s p = Some j" "p \<notin> set (holders s)" "p \<notin> set (head (mQueue s))"
    "p \<notin> set (somes (jobs (cpu s)))"
  using inv_struct_withD(4,5) [OF assms] by (auto simp: holders_def)

lemma cpuCoreRemoveJob_closed:
  assumes i: "inv_struct_with ex s" and c: "c < length (jobs (cpu s))"
    and p: "jobs (cpu s) ! c = Some p" and j: "mem s p = Some j" and n: "jobNumber j = job_number"
  shows "\<exists>pre post. head (mQueue s) = pre @ post \<and>
     cpuCoreRemoveJob (int c) job_number s =
       Inr (s\<lparr>mem := (mem s)(p \<mapsto> j\<lparr>lastTime := - 1\<rparr>),
              cpu := (cpu s)\<lparr>jobs := (jobs (cpu s))[c := None]\<rparr>,
              mQueue := (mQueue s)\<lparr>head := pre @ p # post, size_q := size_q (mQueue s) + 1\<rparr>\<rparr>, p)"
proof -
  let ?s1 = "s\<lparr>mem := (mem s)(p \<mapsto> j\<lparr>lastTime := - 1\<rparr>),
              cpu := (cpu s)\<lparr>jobs := (jobs (cpu s))[c := None]\<rparr>\<rparr>"
  have "wf_queue (mQueue ?s1)" using inv_struct_withD(1) [OF i] by simp
  moreover have "mem ?s1 p = Some (j\<lparr>lastTime := - 1\<rparr>)" by simp
  moreover have "set (head (mQueue ?s1)) \<subseteq> dom (mem ?s1)" using queued_allocated [OF i] by auto
  ultimately obtain pre post where pp: "head (mQueue ?s1) = pre @ post"
    and off: "priqueue_offer (compare ?s1) (mQueue ?s1) p =
       Inr ((mQueue ?s1)\<lparr>head := pre @ p # post, size_q := size_q (mQueue ?s1) + 1\<rparr>, int (length pre))"
    using offer_job by blast
  from c inv_struct_withD(3) [OF i] have r: "\<not> (int c < 0 \<or> nCores (cpu s) \<le> int c)" by simp
  have "cpuCoreRemoveJob (int c) job_number s =
       Inr (?s1\<lparr>mQueue := (mQueue s)\<lparr>head := pre @ p # post, size_q := size_q (mQueue s) + 1\<rparr>\<rparr>, p)"
    unfolding cpuCoreRemoveJob_def using r c p j n off
    by (simp add: core_slot_in_range Let_def)
  with pp show ?thesis by auto
qed

lemma removed_job_inv:
  assumes i: "inv_struct_with ex s" and t: "inv_time s" and c: "c < length (jobs (cpu s))"
    and p: "jobs (cpu s) ! c = Some p" and j: "mem s p = Some j"
    and pp: "head (mQueue s) = pre @ post"
  shows "inv_struct_with ex
           (s\<lparr>mem := (mem s)(p \<mapsto> j\<lparr>lastTime := - 1\<rparr>),
              cpu := (cpu s)\<lparr>jobs := (jobs (cpu s))[c := None]\<rparr>,
              mQueue := (mQueue s)\<lparr>head := pre @ p # post, size_q := size_q (mQueue s) + 1\<rparr>\<rparr>)"
    and "inv_time
           (s\<lparr>mem := (mem s)(p \<mapsto> j\<lparr>lastTime := - 1\<rparr>),
              cpu := (cpu s)\<lparr>jobs := (jobs (cpu s))[c := None]\<rparr>,
              mQueue := (mQueue s)\<lparr>head := pre @ p # post, size_q := size_q (mQueue s) + 1\<rparr>\<rparr>)"
proof -
  let ?s1 = "s\<lparr>mem := (mem s)(p \<mapsto> j\<lparr>lastTime := - 1\<rparr>),
              cpu := (cpu s)\<lparr>jobs := (jobs (cpu s))[c := None]\<rparr>\<rparr>"
  have i1: "inv_struct_with (p # ex) ?s1" using i c p by (rule inv_struct_unassign)
  have q1: "head (mQueue ?s1) = pre @ post" using pp by simp
  from inv_struct_offer [OF i1 q1]
  show "inv_struct_with ex
           (s\<lparr>mem := (mem s)(p \<mapsto> j\<lparr>lastTime := - 1\<rparr>),
              cpu := (cpu s)\<lparr>jobs := (jobs (cpu s))[c := None]\<rparr>,
              mQueue := (mQueue s)\<lparr>head := pre @ p # post, size_q := size_q (mQueue s) + 1\<rparr>\<rparr>)"
    by simp
  from pending_allocated(3,4) [OF i1]
  have "p \<notin> set (head (mQueue s))" "p \<notin> set (somes ((jobs (cpu s))[c := None]))" by simp_all
  with t j have t1: "inv_time ?s1" by (rule inv_time_unassign)
  have "mem ?s1 p = Some (j\<lparr>lastTime := - 1\<rparr>)" "lastTime (j\<lparr>lastTime := - 1\<rparr>) = - 1" by simp_all
  from inv_time_offer [OF t1 this q1, of "size_q (mQueue s) + 1"]
  show "inv_time
           (s\<lparr>mem := (mem s)(p \<mapsto> j\<lparr>lastTime := - 1\<rparr>),
              cpu := (cpu s)\<lparr>jobs := (jobs (cpu s))[c := None]\<rparr>,
              mQueue := (mQueue s)\<lparr>head := pre @ p # post, size_q := size_q (mQueue s) + 1\<rparr>\<rparr>)"
    by simp
qed


section \<open>The scan for a core to preempt\<close>

lemma scan_ok_start: "scan_ok s cand 0 0 (- 1)"
  by (simp add: scan_ok_def)

lemma scan_ok_index: "scan_ok s cand n cc ci \<Longrightarrow> ci = - 1 \<or> (0 \<le> ci \<and> nat ci < n)"
  by (auto simp: scan_ok_def)

lemma scan_ok_bound: "scan_ok s cand n cc ci \<Longrightarrow> cc \<le> 0"
  by (auto simp: scan_ok_def)

lemma scan_ok_chosen: "scan_ok s cand n cc ci \<Longrightarrow> ci \<noteq> - 1 \<Longrightarrow> \<exists>v. core_job s ci = Inr v"
  by (auto simp: scan_ok_def)

lemma scan_step_less:
  assumes "scan_ok s cand n cc ci" and "core_job s (int n) = Inr jo"
    and "compare_jobs (curScheme s) cand jo < cc"
  shows "scan_ok s cand (Suc n) (compare_jobs (curScheme s) cand jo) (int n)"
proof -
  let ?pc = "compare_jobs (curScheme s) cand jo"
  from assms(1) have "cc \<le> 0" by (rule scan_ok_bound)
  with assms(3) have neg: "?pc < 0" by simp
  have all: "?pc \<le> compare_jobs (curScheme s) cand j \<and>
             (compare_jobs (curScheme s) cand j = ?pc \<longrightarrow> arrivalTime j \<le> arrivalTime jo)"
    if "k < Suc n" and "core_job s (int k) = Inr j" for k j
  proof (cases "k = n")
    case True
    with that assms(2) show ?thesis by simp
  next
    case False
    with that have "k < n" by simp
    with assms(1) that(2) have "cc \<le> compare_jobs (curScheme s) cand j"
      by (auto simp: scan_ok_def)
    with assms(3) show ?thesis by simp
  qed
  show ?thesis unfolding scan_ok_def
    using neg assms(2) all by (intro disjI2) auto
qed

lemma scan_step_keep:
  assumes "scan_ok s cand n cc ci" and "core_job s (int n) = Inr jo"
    and "cc \<le> compare_jobs (curScheme s) cand jo"
    and "compare_jobs (curScheme s) cand jo = cc \<Longrightarrow> ci \<noteq> - 1 \<Longrightarrow>
           \<exists>v. core_job s ci = Inr v \<and> arrivalTime jo \<le> arrivalTime v"
  shows "scan_ok s cand (Suc n) cc ci"
proof (cases "ci = - 1")
  case True
  with assms(1) have cc: "cc = 0"
    and old: "\<And>k j. k < n \<Longrightarrow> core_job s (int k) = Inr j \<Longrightarrow> 0 \<le> compare_jobs (curScheme s) cand j"
    by (auto simp: scan_ok_def)
  have "0 \<le> compare_jobs (curScheme s) cand j" if "k < Suc n" and "core_job s (int k) = Inr j" for k j
  proof (cases "k = n")
    case True
    with that assms(2,3) cc show ?thesis by simp
  next
    case False
    with that have "k < n" by simp
    then show ?thesis using that(2) by (rule old)
  qed
  with True cc show ?thesis by (simp add: scan_ok_def)
next
  case False
  with assms(1) obtain v where ci: "0 \<le> ci" "nat ci < n" "cc < 0"
    and v: "core_job s ci = Inr v" "compare_jobs (curScheme s) cand v = cc"
    and old: "\<And>k j. k < n \<Longrightarrow> core_job s (int k) = Inr j \<Longrightarrow>
            cc \<le> compare_jobs (curScheme s) cand j \<and>
            (compare_jobs (curScheme s) cand j = cc \<longrightarrow> arrivalTime j \<le> arrivalTime v)"
    by (auto simp: scan_ok_def)
  have all: "cc \<le> compare_jobs (curScheme s) cand j \<and>
            (compare_jobs (curScheme s) cand j = cc \<longrightarrow> arrivalTime j \<le> arrivalTime v)"
    if "k < Suc n" and "core_job s (int k) = Inr j" for k j
  proof (cases "k = n")
    case True
    with that assms(2) have jj: "j = jo" by simp
    from assms(4) False v(1) have "compare_jobs (curScheme s) cand jo = cc \<Longrightarrow> arrivalTime jo \<le> arrivalTime v"
      by auto
    with jj assms(3) show ?thesis by simp
  next
    case False
    with that have "k < n" by simp
    then show ?thesis using that(2) by (rule old)
  qed
  from ci have "nat ci < Suc n" by simp
  with ci(1,3) v all show ?thesis unfolding scan_ok_def by (intro disjI2) auto
qed

lemma scan_step_later:
  assumes "scan_ok s cand n cc ci" and "core_job s (int n) = Inr jo"
    and "compare_jobs (curScheme s) cand jo = cc" and "ci \<noteq> - 1"
    and "core_job s ci = Inr v" and "arrivalTime v < arrivalTime jo"
  shows "scan_ok s cand (Suc n) cc (int n)"
proof -
  from assms(1,4,5) have cc: "cc < 0"
    and old: "\<And>k j. k < n \<Longrightarrow> core_job s (int k) = Inr j \<Longrightarrow>
            cc \<le> compare_jobs (curScheme s) cand j \<and>
            (compare_jobs (curScheme s) cand j = cc \<longrightarrow> arrivalTime j \<le> arrivalTime v)"
    by (auto simp: scan_ok_def)
  have all: "cc \<le> compare_jobs (curScheme s) cand j \<and>
            (compare_jobs (curScheme s) cand j = cc \<longrightarrow> arrivalTime j \<le> arrivalTime jo)"
    if "k < Suc n" and "core_job s (int k) = Inr j" for k j
  proof (cases "k = n")
    case True
    with that assms(2,3) show ?thesis by simp
  next
    case False
    with that have "k < n" by simp
    from old [OF this that(2)] assms(6) show ?thesis by auto
  qed
  show ?thesis unfolding scan_ok_def
    using cc assms(2,3) all by (intro disjI2) auto
qed


lemma cpuCorePreempt_loop_scan:
  assumes busy: "\<forall>k<length (jobs (cpu s)). \<exists>p j. jobs (cpu s) ! k = Some p \<and> mem s p = Some j"
    and cand: "mem s job = Some cand"
  shows "jobs (cpu s) = done @ rest \<Longrightarrow> scan_ok s cand (length done) cc ci \<Longrightarrow>
    \<exists>ci' cc'. cpuCorePreempt_loop s job (int (length done)) rest cc ci = Inr ci' \<and>
               scan_ok s cand (length (jobs (cpu s))) cc' ci'"
proof (induction rest arbitrary: "done" cc ci)
  case Nil
  then show ?case by auto
next
  case (Cons slot rest)
  let ?n = "length done"
  from Cons.prems(1) have n: "?n < length (jobs (cpu s))" and slot: "jobs (cpu s) ! ?n = slot"
    by simp_all
  with busy obtain occ jo where occ: "slot = Some occ" and jo: "mem s occ = Some jo" by auto
  from n slot occ jo have cj: "core_job s (int ?n) = Inr jo" by (simp add: core_job_Some)
  let ?pc = "compare_jobs (curScheme s) cand jo"
  from cand jo have cmp: "compare s job occ = Inr ?pc" by (rule compare_valid)
  from Cons.prems(1) have split: "jobs (cpu s) = (done @ [slot]) @ rest" by simp
  have len: "int (length (done @ [slot])) = int ?n + 1" by simp
  have next_call: "\<exists>ci' cc'. cpuCorePreempt_loop s job (int ?n + 1) rest cc1 ci1 = Inr ci' \<and>
               scan_ok s cand (length (jobs (cpu s))) cc' ci'"
    if "scan_ok s cand (Suc ?n) cc1 ci1" for cc1 ci1
  proof -
    from that have "scan_ok s cand (length (done @ [slot])) cc1 ci1" by simp
    from Cons.IH [OF split this] show ?thesis unfolding len .
  qed
  consider (less) "?pc < cc" | (greater) "cc < ?pc" | (none) "?pc = cc" "ci = - 1"
    | (tie) "?pc = cc" "ci \<noteq> - 1"
    by linarith
  then show ?case
  proof cases
    case less
    from Cons.prems(2) cj less have "scan_ok s cand (Suc ?n) ?pc (int ?n)" by (rule scan_step_less)
    from next_call [OF this] less show ?thesis by (simp add: occ cmp)
  next
    case greater
    with Cons.prems(2) cj have "scan_ok s cand (Suc ?n) cc ci" by (intro scan_step_keep) auto
    from next_call [OF this] greater show ?thesis by (simp add: occ cmp)
  next
    case none
    with Cons.prems(2) cj have "scan_ok s cand (Suc ?n) cc ci" by (intro scan_step_keep) auto
    from next_call [OF this] none show ?thesis by (simp add: occ cmp)
  next
    case tie
    from Cons.prems(2) tie(2) obtain v where v: "core_job s ci = Inr v"
      using scan_ok_chosen by blast
    show ?thesis
    proof (cases "arrivalTime v < arrivalTime jo")
      case True
      from Cons.prems(2) cj tie(1,2) v True have "scan_ok s cand (Suc ?n) cc (int ?n)"
        by (rule scan_step_later)
      from next_call [OF this] tie True show ?thesis by (simp add: occ cmp v jo)
    next
      case False
      with Cons.prems(2) cj tie v have "scan_ok s cand (Suc ?n) cc ci"
        by (intro scan_step_keep) auto
      from next_call [OF this] tie False show ?thesis by (simp add: occ cmp v jo)
    qed
  qed
qed


section \<open>Start-up and clean-up\<close>

lemma cpuUpdateTime_loop_idle: "cpuUpdateTime_loop time (replicate n None) s = Inr s"
  by (induction n) simp_all

lemma scheduler_start_up_closed:
  "scheduler_start_up cores scheme g =
     Inr (g\<lparr>curScheme := scheme, mQueue := priqueue_init, cpu := cpuInit cores, currentTime := 0\<rparr>)"
  by (simp add: scheduler_start_up_def cpuUpdateTime_def visited_def overrun_def cpuInit_def
      cpuUpdateTime_loop_idle)

lemma start_up_started:
  "scheduler_start_up cores scheme initial_globals = Inr (started cores scheme)"
  by (simp add: scheduler_start_up_closed started_def)

lemma start_inv:
  assumes "0 < cores"
  shows "sched_inv (started cores scheme)"
  using assms
  by (simp add: started_def sched_inv_def inv_struct_def inv_struct_with_def inv_time_def
      initial_globals_def priqueue_init_def cpuInit_def wf_queue_def holders_def
      somes_replicate_None)

lemma clean_up_stats [simp]:
  "numWaiting (scheduler_clean_up s) = numWaiting s"
  "totalWaitTime (scheduler_clean_up s) = totalWaitTime s"
  "numTurnAround (scheduler_clean_up s) = numTurnAround s"
  "totalTurnAroundTime (scheduler_clean_up s) = totalTurnAroundTime s"
  "numResponse (scheduler_clean_up s) = numResponse s"
  "totalRespTime (scheduler_clean_up s) = totalRespTime s"
  by (simp_all add: scheduler_clean_up_def split: prod.splits)


section \<open>Jobs in the cores between two calls\<close>

lemma sched_invD:
  assumes "sched_inv s"
  shows "inv_struct_with [] s" "inv_time s"
  using assms by (simp_all add: sched_inv_def inv_struct_def)

lemma sched_invI: "inv_struct_with [] s \<Longrightarrow> inv_time s \<Longrightarrow> sched_inv s"
  by (simp add: sched_inv_def inv_struct_def)

lemma running_lastTime:
  assumes "sched_inv s" and "p \<in> set (somes (jobs (cpu s)))"
  shows "\<exists>j. mem s p = Some j \<and> lastTime j = currentTime s"
proof -
  from assms(2) have "p \<in> set ([] @ holders s)" by (simp add: holders_def)
  with inv_struct_withD(5) [OF sched_invD(1) [OF assms(1)]] obtain j where "mem s p = Some j" by auto
  with inv_timeD(2) [OF sched_invD(2) [OF assms(1)] this assms(2)] show ?thesis by simp
qed

lemma responders_less:
  assumes "sched_inv s" and "currentTime s \<le> time"
  shows "responders time (somes (jobs (cpu s))) (mem s) =
     filter (\<lambda>p. case mem s p of None \<Rightarrow> False | Some j \<Rightarrow> initTime j = - 1 \<and> lastTime j < time)
       (somes (jobs (cpu s)))"
  unfolding responders_def
proof (rule filter_cong [OF refl])
  fix p assume "p \<in> set (somes (jobs (cpu s)))"
  with assms(1) obtain j where "mem s p = Some j" "lastTime j = currentTime s"
    using running_lastTime by blast
  with assms(2) show "(case mem s p of None \<Rightarrow> False | Some j \<Rightarrow> responds time j) =
     (case mem s p of None \<Rightarrow> False | Some j \<Rightarrow> initTime j = - 1 \<and> lastTime j < time)"
    by (auto simp: responds_def)
qed

lemma one_running_inv: "sched_inv one_running"
  by (auto simp: sched_inv_def inv_struct_def inv_struct_with_def inv_time_def one_running_def
      initial_globals_def priqueue_init_def wf_queue_def holders_def job_times_ok_def
      split: if_splits)

lemma one_running_one_waiting_inv: "sched_inv one_running_one_waiting"
  by (auto simp: sched_inv_def inv_struct_def inv_struct_with_def inv_time_def
      one_running_one_waiting_def initial_globals_def wf_queue_def holders_def job_times_ok_def
      split: if_splits)

lemma two_running_inv: "sched_inv two_running"
  by (auto simp: sched_inv_def inv_struct_def inv_struct_with_def inv_time_def
      two_running_def initial_globals_def priqueue_init_def wf_queue_def holders_def job_times_ok_def
      split: if_splits)


section \<open>Polling the queue for a freed core\<close>

lemma poll_and_assign_empty: "head (mQueue s) = [] \<Longrightarrow> poll_and_assign c s = Inr (s, - 1)"
  by (simp add: poll_and_assign_def priqueue_poll_def)

lemma poll_and_assign_job:
  assumes "head (mQueue s) = h # rest" and "c < length (jobs (cpu s))" and "jobs (cpu s) ! c = None"
    and "mem s h = Some jh"
  shows "poll_and_assign (int c) s =
     Inr (s\<lparr>mQueue := (mQueue s)\<lparr>head := rest, size_q := size_q (mQueue s) - 1\<rparr>,
            cpu := (cpu s)\<lparr>jobs := (jobs (cpu s))[c := Some h]\<rparr>,
            mem := (mem s)(h \<mapsto> jh\<lparr>lastTime := currentTime s\<rparr>)\<rparr>, jobNumber jh)"
proof -
  let ?s1 = "s\<lparr>mQueue := (mQueue s)\<lparr>head := rest, size_q := size_q (mQueue s) - 1\<rparr>\<rparr>"
  have "cpuCoreAssignJob (int c) h ?s1 =
     Inr (?s1\<lparr>cpu := (cpu ?s1)\<lparr>jobs := (jobs (cpu ?s1))[nat (int c) := Some h]\<rparr>,
            mem := (mem ?s1)(h \<mapsto> jh\<lparr>lastTime := currentTime ?s1\<rparr>)\<rparr>, h)"
    using assms by (intro cpuCoreAssignJob_closed) simp_all
  with assms(1) show ?thesis
    by (simp add: poll_and_assign_def priqueue_poll_def)
qed

lemma cpuCoreRemoveJob_RR:
  assumes i: "inv_struct_with ex s" and c: "c < length (jobs (cpu s))"
    and p: "jobs (cpu s) ! c = Some p" and j: "mem s p = Some j" and n: "jobNumber j = job_number"
    and rr: "curScheme s = RR"
  shows "cpuCoreRemoveJob (int c) job_number s =
       Inr (s\<lparr>mem := (mem s)(p \<mapsto> j\<lparr>lastTime := - 1\<rparr>),
              cpu := (cpu s)\<lparr>jobs := (jobs (cpu s))[c := None]\<rparr>,
              mQueue := (mQueue s)\<lparr>head := head (mQueue s) @ [p], size_q := size_q (mQueue s) + 1\<rparr>\<rparr>, p)"
proof -
  let ?s1 = "s\<lparr>mem := (mem s)(p \<mapsto> j\<lparr>lastTime := - 1\<rparr>),
              cpu := (cpu s)\<lparr>jobs := (jobs (cpu s))[c := None]\<rparr>\<rparr>"
  have "wf_queue (mQueue ?s1)" using inv_struct_withD(1) [OF i] by simp
  moreover have "mem ?s1 p = Some (j\<lparr>lastTime := - 1\<rparr>)" by simp
  moreover have "set (head (mQueue ?s1)) \<subseteq> dom (mem ?s1)" using queued_allocated [OF i] by auto
  moreover have "curScheme ?s1 = RR" using rr by simp
  ultimately have off: "priqueue_offer (compare ?s1) (mQueue ?s1) p =
       Inr ((mQueue ?s1)\<lparr>head := head (mQueue ?s1) @ [p], size_q := size_q (mQueue ?s1) + 1\<rparr>,
            int (length (head (mQueue ?s1))))"
    by (rule offer_job_RR)
  from c inv_struct_withD(3) [OF i] have r: "\<not> (int c < 0 \<or> nCores (cpu s) \<le> int c)" by simp
  show ?thesis
    unfolding cpuCoreRemoveJob_def using r c p j n off
    by (simp add: core_slot_in_range Let_def)
qed

lemma jobNumber_advance [simp]: "jobNumber (cpuUpdateTime_job time j) = jobNumber j"
  by (simp add: cpuUpdateTime_job_def Let_def)

lemma valid_core_event:
  assumes "core_job s c = Inr j"
  obtains p where "0 \<le> c" "nat c < length (jobs (cpu s))" "jobs (cpu s) ! nat c = Some p" "mem s p = Some j"
  using core_job_InrD [OF assms] by blast


section \<open>\<open>scheduler_new_job\<close>\<close>

lemma admitted_fields [simp]:
  "curScheme (admitted n t r pr s) = curScheme s"
  "mQueue (admitted n t r pr s) = mQueue s"
  "cpu (admitted n t r pr s) = cpu s"
  "brk (admitted n t r pr s) = brk s + 1"
  "currentTime (admitted n t r pr s) = t"
  "totalWaitTime (admitted n t r pr s) = totalWaitTime s"
  "numWaiting (admitted n t r pr s) = numWaiting s"
  "totalTurnAroundTime (admitted n t r pr s) = totalTurnAroundTime s"
  "numTurnAround (admitted n t r pr s) = numTurnAround s"
  "mem (admitted n t r pr s) (brk s) = Some (new_job_record n t r pr)"
  by (simp_all add: admitted_def)

lemma holders_admitted [simp]: "holders (admitted n t r pr s) = holders s"
  by (simp add: holders_def)

lemma job_times_ok_new: "job_times_ok t (new_job_record n t r pr)"
  by (simp add: job_times_ok_def new_job_record_def)

lemma admitted_inv:
  assumes "sched_inv s" and "currentTime s \<le> t"
  shows "inv_struct_with [brk s] (admitted n t r pr s)" and "inv_time (admitted n t r pr s)"
proof -
  note i = sched_invD [OF assms(1)]
  let ?s1 = "advanced t s"
  have i1: "inv_struct_with [] ?s1" using i(1) by (rule inv_struct_with_advanced)
  from inv_struct_alloc [OF i1, of "new_job_record n t r pr"]
  show "inv_struct_with [brk s] (admitted n t r pr s)" by (simp add: admitted_def)
  from inv_struct_withD(4) [OF i(1)] have d: "distinct (holders s)" by simp
  have t1: "inv_time ?s1" using i(2) assms(2) d by (rule inv_time_advanced)
  from inv_struct_withD(5,6) [OF i1] have "brk ?s1 \<notin> set (holders ?s1)" by fastforce
  then have fresh: "brk s \<notin> set (holders ?s1)" by simp
  have ok: "job_times_ok (currentTime ?s1) (new_job_record n t r pr)" by (simp add: job_times_ok_new)
  from inv_time_alloc [OF t1 fresh ok, of "brk s + 1"]
  show "inv_time (admitted n t r pr s)" by (simp add: admitted_def)
qed

lemma scheduler_new_job_reduced:
  assumes "sched_inv s" and "currentTime s \<le> time"
  shows "scheduler_new_job job_number time running_time priority' s =
    (let job = brk s; s2 = admitted job_number time running_time priority' s
     in case cpuCoresAvailable s2 of
          Inl f \<Rightarrow> Inl f
        | Inr workingCore \<Rightarrow>
            if workingCore \<noteq> - 1 then
              (case cpuCoreAssignJob workingCore job s2 of
                 Inl f \<Rightarrow> Inl f
               | Inr (s3, _) \<Rightarrow> Inr (s3, workingCore))
            else if curScheme s2 = PSJF \<or> curScheme s2 = PPRI then
              (case cpuCorePreempt job s2 of
                 Inl f \<Rightarrow> Inl f
               | Inr (s3, workingCore') \<Rightarrow>
                   if workingCore' = - 1 then
                     (case priqueue_offer (compare s3) (mQueue s3) job of
                        Inl f \<Rightarrow> Inl f
                      | Inr (q, _) \<Rightarrow> Inr (s3\<lparr>mQueue := q\<rparr>, workingCore'))
                   else Inr (s3, workingCore'))
            else
              (case priqueue_offer (compare s2) (mQueue s2) job of
                 Inl f \<Rightarrow> Inl f
               | Inr (q, _) \<Rightarrow> Inr (s2\<lparr>mQueue := q\<rparr>, - 1)))"
proof -
  note i = sched_invD [OF assms(1)]
  let ?s2 = "admitted job_number time running_time priority' s"
  have run: "cpuUpdateTime time s = Inr (advanced time s)" using i(1) by (rule cpuUpdateTime_closed)
  have i2: "inv_struct_with [brk s] ?s2" using assms by (rule admitted_inv)
  from inv_struct_withD(2,3) [OF i2] have pos: "0 < length (jobs (cpu ?s2))" by simp
  then have slot: "core_slot ?s2 0 = Inr (jobs (cpu ?s2) ! 0)"
    using core_slot_in_range [of 0 ?s2] by simp
  have nofault: "core_job ?s2 0 \<noteq> Inl BadDeref" if "jobs (cpu ?s2) ! 0 \<noteq> None"
  proof -
    from that obtain p where p: "jobs (cpu ?s2) ! 0 = Some p" by auto
    with occupant_allocated [OF i2 pos] obtain j where "mem ?s2 p = Some j" by blast
    with pos p have "core_job ?s2 (int 0) = Inr j" by (rule core_job_Some)
    then show ?thesis by simp
  qed
  have s2: "(advanced time s)\<lparr>mem := (mem (advanced time s))(brk (advanced time s) \<mapsto>
                \<lparr>jobNumber = job_number, arrivalTime = time, runTime = running_time,
                 remainingTime = running_time, priority = priority', initTime = - 1, lastTime = - 1\<rparr>),
              brk := brk (advanced time s) + 1\<rparr> = ?s2"
    by (simp add: admitted_def new_job_record_def)
  show ?thesis
    unfolding scheduler_new_job_def run sum.case Let_def s2
    using slot nofault by (auto split: sum.splits)
qed

lemma busy_not_idle:
  assumes "sched_inv s" and "currentTime s \<le> time" and "None \<notin> set (jobs (cpu s))"
  shows "cpuCoresAvailable (admitted n time r pr s) = Inr (- 1)"
proof -
  from admitted_inv(1) [OF assms(1,2)] have "nCores (cpu s) = int (length (jobs (cpu s)))"
    using inv_struct_withD(3) by fastforce
  with assms(3) show ?thesis by (intro cpuCoresAvailable_busy) simp_all
qed

lemma new_job_idle:
  assumes inv: "sched_inv s" and t: "currentTime s \<le> time" and idle: "None \<in> set (jobs (cpu s))"
  shows "\<exists>k s'. k < length (jobs (cpu s)) \<and> jobs (cpu s) ! k = None \<and>
      (\<forall>m<k. jobs (cpu s) ! m \<noteq> None) \<and>
      scheduler_new_job n time r pr s = Inr (s', int k) \<and> sched_inv s' \<and>
      jobs (cpu s') = (jobs (cpu s))[k := Some (brk s)] \<and> head (mQueue s') = head (mQueue s)"
proof -
  let ?s2 = "admitted n time r pr s" and ?cand = "new_job_record n time r pr"
  note i2 = admitted_inv [OF inv t, of n r pr]
  from inv_struct_withD(3) [OF i2(1)] have nc: "nCores (cpu ?s2) = int (length (jobs (cpu ?s2)))" .
  from idle have "None \<in> set (jobs (cpu ?s2))" by simp
  from cpuCoresAvailable_idle [OF nc this] obtain k
    where av: "cpuCoresAvailable ?s2 = Inr (int k)" and k: "k < length (jobs (cpu s))"
      and none: "jobs (cpu s) ! k = None" and low: "\<forall>m<k. jobs (cpu s) ! m \<noteq> None"
    by auto
  let ?s3 = "?s2\<lparr>cpu := (cpu ?s2)\<lparr>jobs := (jobs (cpu ?s2))[k := Some (brk s)]\<rparr>,
                 mem := (mem ?s2)(brk s \<mapsto> ?cand\<lparr>lastTime := currentTime ?s2\<rparr>)\<rparr>"
  have m: "mem ?s2 (brk s) = Some ?cand" by simp
  have "cpuCoreAssignJob (int k) (brk s) ?s2 =
     Inr (?s2\<lparr>cpu := (cpu ?s2)\<lparr>jobs := (jobs (cpu ?s2))[nat (int k) := Some (brk s)]\<rparr>,
            mem := (mem ?s2)(brk s \<mapsto> ?cand\<lparr>lastTime := currentTime ?s2\<rparr>)\<rparr>, brk s)"
    using k none m by (intro cpuCoreAssignJob_closed) simp_all
  then have asg: "cpuCoreAssignJob (int k) (brk s) ?s2 = Inr (?s3, brk s)" by simp
  have res: "scheduler_new_job n time r pr s = Inr (?s3, int k)"
    unfolding scheduler_new_job_reduced [OF inv t] Let_def av sum.case asg by simp
  have k2: "k < length (jobs (cpu ?s2))" "jobs (cpu ?s2) ! k = None" using k none by simp_all
  have "inv_struct_with [] ?s3" using i2(1) k2 by (rule inv_struct_assign)
  moreover have "inv_time ?s3"
    using i2(2) m pending_allocated(3) [OF i2(1)] by (rule inv_time_assign)
  ultimately have "sched_inv ?s3" by (rule sched_invI)
  with res k none low show ?thesis by (intro exI [of _ k] exI [of _ ?s3]) simp
qed

lemma lastTime_new [simp]: "lastTime (new_job_record n t r pr) = - 1"
  by (simp add: new_job_record_def)

lemma enqueue_pending:
  assumes i: "inv_struct_with [job] s2" and t: "inv_time s2" and m: "mem s2 job = Some cand"
    and l: "lastTime cand = - 1"
  shows "\<exists>pre post. head (mQueue s2) = pre @ post \<and>
      priqueue_offer (compare s2) (mQueue s2) job =
        Inr ((mQueue s2)\<lparr>head := pre @ job # post, size_q := size_q (mQueue s2) + 1\<rparr>,
             int (length pre)) \<and>
      sched_inv (s2\<lparr>mQueue := (mQueue s2)\<lparr>head := pre @ job # post,
                                            size_q := size_q (mQueue s2) + 1\<rparr>\<rparr>)"
proof -
  from offer_job [OF inv_struct_withD(1) [OF i] m queued_allocated [OF i]]
  obtain pre post where pp: "head (mQueue s2) = pre @ post"
    and off: "priqueue_offer (compare s2) (mQueue s2) job =
       Inr ((mQueue s2)\<lparr>head := pre @ job # post, size_q := size_q (mQueue s2) + 1\<rparr>, int (length pre))"
    by blast
  let ?s' = "s2\<lparr>mQueue := (mQueue s2)\<lparr>head := pre @ job # post, size_q := size_q (mQueue s2) + 1\<rparr>\<rparr>"
  have "inv_struct_with [] ?s'" using i pp by (rule inv_struct_offer)
  moreover have "inv_time ?s'" using t m l pp by (rule inv_time_offer)
  ultimately have "sched_inv ?s'" by (rule sched_invI)
  with pp off show ?thesis by blast
qed

lemma new_job_queued:
  assumes inv: "sched_inv s" and t: "currentTime s \<le> time" and busy: "None \<notin> set (jobs (cpu s))"
    and np: "curScheme s \<noteq> PSJF" "curScheme s \<noteq> PPRI"
  shows "\<exists>pre post s'. head (mQueue s) = pre @ post \<and>
      scheduler_new_job n time r pr s = Inr (s', - 1) \<and> sched_inv s' \<and>
      jobs (cpu s') = jobs (cpu s) \<and> head (mQueue s') = pre @ brk s # post"
proof -
  let ?s2 = "admitted n time r pr s" and ?cand = "new_job_record n time r pr"
  note i2 = admitted_inv [OF inv t, of n r pr]
  have av: "cpuCoresAvailable ?s2 = Inr (- 1)" using inv t busy by (rule busy_not_idle)
  have m: "mem ?s2 (brk s) = Some ?cand" by simp
  from enqueue_pending [OF i2 m] obtain pre post
    where pp: "head (mQueue ?s2) = pre @ post"
      and off: "priqueue_offer (compare ?s2) (mQueue ?s2) (brk s) =
        Inr ((mQueue ?s2)\<lparr>head := pre @ brk s # post, size_q := size_q (mQueue ?s2) + 1\<rparr>,
             int (length pre))"
      and inv': "sched_inv (?s2\<lparr>mQueue := (mQueue ?s2)\<lparr>head := pre @ brk s # post,
                                            size_q := size_q (mQueue ?s2) + 1\<rparr>\<rparr>)"
    by auto
  let ?s' = "?s2\<lparr>mQueue := (mQueue ?s2)\<lparr>head := pre @ brk s # post,
                                            size_q := size_q (mQueue ?s2) + 1\<rparr>\<rparr>"
  have res: "scheduler_new_job n time r pr s = Inr (?s', - 1)"
    unfolding scheduler_new_job_reduced [OF inv t] Let_def av sum.case
    using np off by simp
  with pp inv' show ?thesis
    by (intro exI [of _ pre] exI [of _ post] exI [of _ ?s']) simp
qed

lemma cpuCorePreempt_scan:
  assumes i: "inv_struct_with [job] s2" and m: "mem s2 job = Some cand"
    and busy: "None \<notin> set (jobs (cpu s2))"
  shows "\<exists>ci cc. cpuCorePreempt_loop s2 job 0 (visited s2) 0 (- 1) = Inr ci \<and>
           scan_ok s2 cand (length (jobs (cpu s2))) cc ci"
proof -
  have all: "\<forall>k<length (jobs (cpu s2)). \<exists>p j. jobs (cpu s2) ! k = Some p \<and> mem s2 p = Some j"
  proof (intro allI impI)
    fix k assume k: "k < length (jobs (cpu s2))"
    with busy obtain p where p: "jobs (cpu s2) ! k = Some p" by (metis nth_mem not_None_eq)
    with occupant_allocated [OF i k] show "\<exists>p j. jobs (cpu s2) ! k = Some p \<and> mem s2 p = Some j"
      by blast
  qed
  have split: "jobs (cpu s2) = [] @ jobs (cpu s2)" by simp
  have start: "scan_ok s2 cand (length ([] :: ptr option list)) 0 (- 1)" by (simp add: scan_ok_start)
  from cpuCorePreempt_loop_scan [OF all m split start]
  show ?thesis using inv_struct_withD(3) [OF i] by (simp add: visited_all)
qed

lemma cpuCorePreempt_none:
  assumes i: "inv_struct_with [job] s2"
    and busy: "None \<notin> set (jobs (cpu s2))"
    and loop: "cpuCorePreempt_loop s2 job 0 (visited s2) 0 (- 1) = Inr (- 1)"
  shows "cpuCorePreempt job s2 = Inr (s2, - 1)"
proof -
  have "cpuCoresAvailable s2 = Inr (- 1)"
    using inv_struct_withD(3) [OF i] busy by (rule cpuCoresAvailable_busy)
  with loop show ?thesis by (simp add: cpuCorePreempt_def)
qed

lemma cpuCorePreempt_victim:
  assumes i: "inv_struct_with [job] s2" and t: "inv_time s2" and m: "mem s2 job = Some cand"
    and busy: "None \<notin> set (jobs (cpu s2))"
    and loop: "cpuCorePreempt_loop s2 job 0 (visited s2) 0 (- 1) = Inr ci"
    and ci: "0 \<le> ci" "nat ci < length (jobs (cpu s2))"
  shows "\<exists>pv pre post s3. jobs (cpu s2) ! nat ci = Some pv \<and> head (mQueue s2) = pre @ post \<and>
      cpuCorePreempt job s2 = Inr (s3, ci) \<and> sched_inv s3 \<and>
      jobs (cpu s3) = (jobs (cpu s2))[nat ci := Some job] \<and>
      head (mQueue s3) = pre @ pv # post"
proof -
  let ?c = "nat ci"
  from ci(1) have cc: "ci = int ?c" by simp
  have av: "cpuCoresAvailable s2 = Inr (- 1)"
    using inv_struct_withD(3) [OF i] busy by (rule cpuCoresAvailable_busy)
  from busy ci(2) obtain pv where pv: "jobs (cpu s2) ! ?c = Some pv" by (metis nth_mem not_None_eq)
  with occupant_allocated [OF i ci(2)] obtain v where v: "mem s2 pv = Some v" by blast
  from ci(2) pv v have cj: "core_job s2 ci = Inr v" using core_job_Some [of ?c s2 pv v] cc by simp
  from cpuCoreRemoveJob_closed [OF i ci(2) pv v refl] cc
  obtain pre post where pp: "head (mQueue s2) = pre @ post"
    and rem: "cpuCoreRemoveJob ci (jobNumber v) s2 =
       Inr (s2\<lparr>mem := (mem s2)(pv \<mapsto> v\<lparr>lastTime := - 1\<rparr>),
              cpu := (cpu s2)\<lparr>jobs := (jobs (cpu s2))[?c := None]\<rparr>,
              mQueue := (mQueue s2)\<lparr>head := pre @ pv # post, size_q := size_q (mQueue s2) + 1\<rparr>\<rparr>, pv)"
    by auto
  let ?s3 = "s2\<lparr>mem := (mem s2)(pv \<mapsto> v\<lparr>lastTime := - 1\<rparr>),
              cpu := (cpu s2)\<lparr>jobs := (jobs (cpu s2))[?c := None]\<rparr>,
              mQueue := (mQueue s2)\<lparr>head := pre @ pv # post, size_q := size_q (mQueue s2) + 1\<rparr>\<rparr>"
  note i3 = removed_job_inv [OF i t ci(2) pv v pp]
  from pending_allocated(4) [OF i] ci(2) pv have ne: "job \<noteq> pv"
    by (auto simp: set_somes dest: nth_mem)
  with m have m3: "mem ?s3 job = Some cand" by simp
  have slot: "0 \<le> ci" "ci < int (length (jobs (cpu ?s3)))" "jobs (cpu ?s3) ! nat ci = None"
    using ci by simp_all
  let ?s4 = "?s3\<lparr>cpu := (cpu ?s3)\<lparr>jobs := (jobs (cpu ?s3))[?c := Some job]\<rparr>,
                 mem := (mem ?s3)(job \<mapsto> cand\<lparr>lastTime := currentTime ?s3\<rparr>)\<rparr>"
  have asg: "cpuCoreAssignJob ci job ?s3 = Inr (?s4, job)"
    using slot m3 by (rule cpuCoreAssignJob_closed)
  have res: "cpuCorePreempt job s2 = Inr (?s4, ci)"
    unfolding cpuCorePreempt_def av sum.case loop cj rem prod.case asg using ci(1) by simp
  have k3: "?c < length (jobs (cpu ?s3))" "jobs (cpu ?s3) ! ?c = None" using ci(2) by simp_all
  have "inv_struct_with [] ?s4" using i3(1) k3 by (rule inv_struct_assign)
  moreover have "inv_time ?s4"
    using i3(2) m3 pending_allocated(3) [OF i3(1)] by (rule inv_time_assign)
  ultimately have "sched_inv ?s4" by (rule sched_invI)
  with pv pp res show ?thesis
    by (intro exI [of _ pv] exI [of _ pre] exI [of _ post] exI [of _ ?s4]) simp
qed

lemma new_job_preemptive:
  assumes inv: "sched_inv s" and t: "currentTime s \<le> time" and busy: "None \<notin> set (jobs (cpu s))"
    and sch: "curScheme s = PSJF \<or> curScheme s = PPRI"
  shows "\<exists>ci cc. scan_ok (admitted n time r pr s) (new_job_record n time r pr)
                   (length (jobs (cpu s))) cc ci \<and>
     (ci = - 1 \<longrightarrow>
        (\<exists>pre post s'. head (mQueue s) = pre @ post \<and>
           scheduler_new_job n time r pr s = Inr (s', - 1) \<and> sched_inv s' \<and>
           jobs (cpu s') = jobs (cpu s) \<and> head (mQueue s') = pre @ brk s # post)) \<and>
     (ci \<noteq> - 1 \<longrightarrow>
        (\<exists>pv pre post s'. 0 \<le> ci \<and> nat ci < length (jobs (cpu s)) \<and>
           jobs (cpu s) ! nat ci = Some pv \<and> head (mQueue s) = pre @ post \<and>
           scheduler_new_job n time r pr s = Inr (s', ci) \<and> sched_inv s' \<and>
           jobs (cpu s') = (jobs (cpu s))[nat ci := Some (brk s)] \<and>
           head (mQueue s') = pre @ pv # post))"
proof -
  let ?s2 = "admitted n time r pr s" and ?cand = "new_job_record n time r pr"
  note i2 = admitted_inv [OF inv t, of n r pr]
  have av: "cpuCoresAvailable ?s2 = Inr (- 1)" using inv t busy by (rule busy_not_idle)
  have m: "mem ?s2 (brk s) = Some ?cand" by simp
  from busy have busy2: "None \<notin> set (jobs (cpu ?s2))" by simp
  from sch have sch2: "curScheme ?s2 = PSJF \<or> curScheme ?s2 = PPRI" by simp
  from cpuCorePreempt_scan [OF i2(1) m busy2] obtain ci cc
    where loop: "cpuCorePreempt_loop ?s2 (brk s) 0 (visited ?s2) 0 (- 1) = Inr ci"
      and scan: "scan_ok ?s2 ?cand (length (jobs (cpu s))) cc ci"
    by auto
  have none: "\<exists>pre post s'. head (mQueue s) = pre @ post \<and>
           scheduler_new_job n time r pr s = Inr (s', - 1) \<and> sched_inv s' \<and>
           jobs (cpu s') = jobs (cpu s) \<and> head (mQueue s') = pre @ brk s # post" if "ci = - 1"
  proof -
    from loop that have "cpuCorePreempt (brk s) ?s2 = Inr (?s2, - 1)"
      using cpuCorePreempt_none [OF i2(1) busy2] by simp
    moreover from enqueue_pending [OF i2 m] obtain pre post
      where pp: "head (mQueue ?s2) = pre @ post"
        and off: "priqueue_offer (compare ?s2) (mQueue ?s2) (brk s) =
          Inr ((mQueue ?s2)\<lparr>head := pre @ brk s # post, size_q := size_q (mQueue ?s2) + 1\<rparr>,
               int (length pre))"
        and inv': "sched_inv (?s2\<lparr>mQueue := (mQueue ?s2)\<lparr>head := pre @ brk s # post,
                                              size_q := size_q (mQueue ?s2) + 1\<rparr>\<rparr>)"
      by auto
    ultimately have "scheduler_new_job n time r pr s =
        Inr (?s2\<lparr>mQueue := (mQueue ?s2)\<lparr>head := pre @ brk s # post,
                                      size_q := size_q (mQueue ?s2) + 1\<rparr>\<rparr>, - 1)"
      unfolding scheduler_new_job_reduced [OF inv t] Let_def av sum.case
      using sch2 by simp
    with pp inv' show ?thesis
      by (intro exI [of _ pre] exI [of _ post]
          exI [of _ "?s2\<lparr>mQueue := (mQueue ?s2)\<lparr>head := pre @ brk s # post,
                                      size_q := size_q (mQueue ?s2) + 1\<rparr>\<rparr>"]) simp
  qed
  have some: "\<exists>pv pre post s'. 0 \<le> ci \<and> nat ci < length (jobs (cpu s)) \<and>
           jobs (cpu s) ! nat ci = Some pv \<and> head (mQueue s) = pre @ post \<and>
           scheduler_new_job n time r pr s = Inr (s', ci) \<and> sched_inv s' \<and>
           jobs (cpu s') = (jobs (cpu s))[nat ci := Some (brk s)] \<and>
           head (mQueue s') = pre @ pv # post" if "ci \<noteq> - 1"
  proof -
    from scan_ok_index [OF scan] that have ci: "0 \<le> ci" "nat ci < length (jobs (cpu ?s2))" by auto
    from cpuCorePreempt_victim [OF i2 m busy2 loop ci] obtain pv pre post s3
      where "jobs (cpu ?s2) ! nat ci = Some pv" "head (mQueue ?s2) = pre @ post"
        "cpuCorePreempt (brk s) ?s2 = Inr (s3, ci)" "sched_inv s3"
        "jobs (cpu s3) = (jobs (cpu ?s2))[nat ci := Some (brk s)]"
        "head (mQueue s3) = pre @ pv # post"
      by blast
    moreover from this(3) have "scheduler_new_job n time r pr s = Inr (s3, ci)"
      unfolding scheduler_new_job_reduced [OF inv t] Let_def av sum.case
      using sch2 that by simp
    ultimately show ?thesis using ci by auto
  qed
  from scan none some show ?thesis by blast
qed

lemma new_job_step:
  assumes inv: "sched_inv s" and t: "currentTime s \<le> time"
  shows "\<exists>s' r. scheduler_new_job n time r0 pr s = Inr (s', r) \<and> sched_inv s'"
proof (cases "None \<in> set (jobs (cpu s))")
  case True
  from new_job_idle [OF inv t True, of n r0 pr] show ?thesis by blast
next
  case False
  show ?thesis
  proof (cases "curScheme s = PSJF \<or> curScheme s = PPRI")
    case True
    from new_job_preemptive [OF inv t False True, of n r0 pr] show ?thesis by blast
  next
    case False
    with new_job_queued [OF inv t \<open>None \<notin> set (jobs (cpu s))\<close>, of n r0 pr] show ?thesis by blast
  qed
qed

lemma int32_fits: "fits x \<Longrightarrow> int32 x = x"
  by (simp add: fits_def int32_def)

lemma fits_minus: "fits (a - b) \<Longrightarrow> fits (b - a)"
  by (simp add: fits_def)

lemma differences_fit_sym: "differences_fit a b \<Longrightarrow> differences_fit b a"
  by (simp add: differences_fit_def fits_def)

lemma differences_fit_bounded:
  assumes "\<bar>arrivalTime a\<bar> < 1073741824" "\<bar>runTime a\<bar> < 1073741824"
    "\<bar>remainingTime a\<bar> < 1073741824" "\<bar>priority a\<bar> < 1073741824"
    "\<bar>arrivalTime b\<bar> < 1073741824" "\<bar>runTime b\<bar> < 1073741824"
    "\<bar>remainingTime b\<bar> < 1073741824" "\<bar>priority b\<bar> < 1073741824"
  shows "differences_fit a b"
proof -
  have "fits (x - y)" if "\<bar>x\<bar> < 1073741824" "\<bar>y\<bar> < 1073741824" for x y
    unfolding fits_def using that by linarith
  with assms show ?thesis by (simp add: differences_fit_def)
qed

lemma compare_jobs_fit:
  assumes "differences_fit a b"
  shows "compare_jobs scheme a b =
    (case scheme of
       FCFS \<Rightarrow> arrivalTime a - arrivalTime b
     | SJF \<Rightarrow> if runTime a = runTime b then arrivalTime a - arrivalTime b else runTime a - runTime b
     | PSJF \<Rightarrow> if remainingTime a = remainingTime b then arrivalTime a - arrivalTime b
               else remainingTime a - remainingTime b
     | PRI \<Rightarrow> if priority a = priority b then arrivalTime a - arrivalTime b else priority a - priority b
     | PPRI \<Rightarrow> if priority a = priority b then arrivalTime a - arrivalTime b else priority a - priority b
     | RR \<Rightarrow> 0)"
proof -
  from assms have "int32 (arrivalTime a - arrivalTime b) = arrivalTime a - arrivalTime b"
    "int32 (runTime a - runTime b) = runTime a - runTime b"
    "int32 (remainingTime a - remainingTime b) = remainingTime a - remainingTime b"
    "int32 (priority a - priority b) = priority a - priority b"
    by (simp_all add: differences_fit_def int32_fits)
  then show ?thesis by (cases scheme) (simp_all add: compare_jobs_def Let_def)
qed

lemma compare_jobs_flip:
  assumes "differences_fit a b"
  shows "compare_jobs scheme a b = - compare_jobs scheme b a"
  unfolding compare_jobs_fit [OF assms] compare_jobs_fit [OF differences_fit_sym [OF assms]]
  by (cases scheme) auto

lemma compare_jobs_key:
  assumes "scheme = PSJF \<or> scheme = PPRI" and "differences_fit cand x"
  shows "compare_jobs scheme cand x =
     (if (if scheme = PSJF then remainingTime cand else priority cand)
         = (if scheme = PSJF then remainingTime x else priority x)
      then arrivalTime cand - arrivalTime x
      else (if scheme = PSJF then remainingTime cand else priority cand)
         - (if scheme = PSJF then remainingTime x else priority x))"
  using assms(1) unfolding compare_jobs_fit [OF assms(2)] by auto

lemma occupant_arrived:
  assumes "inv_time s" and "core_job s k = Inr j"
  shows "arrivalTime j \<le> currentTime s"
proof -
  from core_job_InrD [OF assms(2)] obtain p where "mem s p = Some j" by blast
  with assms(1) have "job_times_ok (currentTime s) j" by (rule inv_timeD(1))
  then show ?thesis by (simp add: job_times_ok_def)
qed

lemma two_running_occupants:
  "core_job (admitted 3 1 4 2 two_running) 0 =
     Inr \<lparr>jobNumber = 1, arrivalTime = 0, runTime = 10, remainingTime = 9,
          priority = 3, initTime = 0, lastTime = 1\<rparr>"
  "core_job (admitted 3 1 4 2 two_running) 1 =
     Inr \<lparr>jobNumber = 2, arrivalTime = 0, runTime = 10, remainingTime = 9,
          priority = 1, initTime = 0, lastTime = 1\<rparr>"
  by (simp_all add: core_job_def core_slot_def admitted_def advanced_def advanced_mem_def
      two_running_def initial_globals_def cpuUpdateTime_job_def Let_def)


section \<open>Every valid event is handled and keeps the invariant\<close>

lemma inv_struct_with_eq:
  "inv_struct_with ex s \<Longrightarrow> mQueue s' = mQueue s \<Longrightarrow> cpu s' = cpu s \<Longrightarrow> mem s' = mem s \<Longrightarrow>
   brk s' = brk s \<Longrightarrow> inv_struct_with ex s'"
  unfolding inv_struct_with_def holders_def by (elim conjE, intro conjI) simp_all

lemma inv_time_eq:
  "inv_time s \<Longrightarrow> mQueue s' = mQueue s \<Longrightarrow> cpu s' = cpu s \<Longrightarrow> mem s' = mem s \<Longrightarrow>
   currentTime s' = currentTime s \<Longrightarrow> inv_time s'"
  by (simp add: inv_time_def)

lemma poll_and_assign_inv:
  assumes i: "inv_struct_with [] s" and t: "inv_time s"
    and c: "c < length (jobs (cpu s))" and idle: "jobs (cpu s) ! c = None"
  shows "\<exists>s' r. poll_and_assign (int c) s = Inr (s', r) \<and> sched_inv s' \<and>
      totalWaitTime s' = totalWaitTime s \<and> numWaiting s' = numWaiting s \<and>
      totalTurnAroundTime s' = totalTurnAroundTime s \<and> numTurnAround s' = numTurnAround s \<and>
      totalRespTime s' = totalRespTime s \<and> numResponse s' = numResponse s"
proof (cases "head (mQueue s)")
  case Nil
  then have "poll_and_assign (int c) s = Inr (s, - 1)" by (rule poll_and_assign_empty)
  moreover have "sched_inv s" using i t by (rule sched_invI)
  ultimately show ?thesis by blast
next
  case (Cons h rest)
  with queued_allocated [OF i] obtain jh where jh: "mem s h = Some jh" by auto
  let ?s1 = "s\<lparr>mQueue := (mQueue s)\<lparr>head := rest, size_q := size_q (mQueue s) - 1\<rparr>\<rparr>"
  let ?s2 = "?s1\<lparr>cpu := (cpu ?s1)\<lparr>jobs := (jobs (cpu ?s1))[c := Some h]\<rparr>,
                 mem := (mem ?s1)(h \<mapsto> jh\<lparr>lastTime := currentTime ?s1\<rparr>)\<rparr>"
  from poll_and_assign_job [OF Cons c idle jh]
  have res: "poll_and_assign (int c) s = Inr (?s2, jobNumber jh)" by simp
  have i1: "inv_struct_with [h] ?s1" using i Cons by (rule inv_struct_poll)
  have t1: "inv_time ?s1" by (rule inv_time_shrink_queue [OF t]) (auto simp: Cons)
  have k: "c < length (jobs (cpu ?s1))" "jobs (cpu ?s1) ! c = None" using c idle by simp_all
  have m: "mem ?s1 h = Some jh" using jh by simp
  have "inv_struct_with [] ?s2" using i1 k by (rule inv_struct_assign)
  moreover have "inv_time ?s2" using t1 m pending_allocated(3) [OF i1] by (rule inv_time_assign)
  ultimately have "sched_inv ?s2" by (rule sched_invI)
  with res show ?thesis by (intro exI [of _ ?s2] exI [of _ "jobNumber jh"]) simp
qed

lemma job_finished_step:
  assumes inv: "sched_inv s" and t: "currentTime s \<le> time"
    and cj: "core_job s core_id = Inr j" and n: "jobNumber j = job_number"
  shows "\<exists>s' r. scheduler_job_finished core_id job_number time s = Inr (s', r) \<and> sched_inv s' \<and>
      totalWaitTime s' = totalWaitTime s + real_of_int (time - arrivalTime j - runTime j) \<and>
      numWaiting s' = numWaiting s + 1 \<and>
      totalTurnAroundTime s' = totalTurnAroundTime s + real_of_int (time - arrivalTime j) \<and>
      numTurnAround s' = numTurnAround s + 1 \<and>
      totalRespTime s' = totalRespTime (advanced time s) \<and>
      numResponse s' = numResponse (advanced time s)"
proof -
  note i = sched_invD [OF inv]
  from cj obtain p where c0: "0 \<le> core_id" and c: "nat core_id < length (jobs (cpu s))"
    and p: "jobs (cpu s) ! nat core_id = Some p" and j: "mem s p = Some j"
    by (rule valid_core_event)
  let ?c = "nat core_id"
  from c0 have cc: "core_id = int ?c" by simp
  let ?s1 = "advanced time s"
  let ?j1 = "cpuUpdateTime_job time j"
  have fields: "arrivalTime ?j1 = arrivalTime j" "runTime ?j1 = runTime j"
    by (simp_all add: cpuUpdateTime_job_def Let_def)
  have run: "cpuUpdateTime time s = Inr ?s1" using i(1) by (rule cpuUpdateTime_closed)
  have i1: "inv_struct_with [] ?s1" using i(1) by (rule inv_struct_with_advanced)
  from inv_struct_withD(4) [OF i(1)] have d: "distinct (holders s)" by simp
  have t1: "inv_time ?s1" using i(2) t d by (rule inv_time_advanced)
  from c p have pc: "p \<in> set (somes (jobs (cpu s)))" by (auto simp: set_somes dest: nth_mem)
  with j have j1: "mem ?s1 p = Some ?j1" by (simp add: advanced_mem_core)
  have c1: "?c < length (jobs (cpu ?s1))" "jobs (cpu ?s1) ! ?c = Some p" using c p by simp_all
  from cpuCoreRemoveJob_closed [OF i1 c1 j1, of job_number] n cc
  obtain pre post where pp: "head (mQueue ?s1) = pre @ post"
    and rem: "cpuCoreRemoveJob core_id job_number ?s1 =
       Inr (?s1\<lparr>mem := (mem ?s1)(p \<mapsto> ?j1\<lparr>lastTime := - 1\<rparr>),
              cpu := (cpu ?s1)\<lparr>jobs := (jobs (cpu ?s1))[?c := None]\<rparr>,
              mQueue := (mQueue ?s1)\<lparr>head := pre @ p # post, size_q := size_q (mQueue ?s1) + 1\<rparr>\<rparr>, p)"
    by auto
  let ?s2 = "?s1\<lparr>mem := (mem ?s1)(p \<mapsto> ?j1\<lparr>lastTime := - 1\<rparr>),
              cpu := (cpu ?s1)\<lparr>jobs := (jobs (cpu ?s1))[?c := None]\<rparr>,
              mQueue := (mQueue ?s1)\<lparr>head := pre @ p # post, size_q := size_q (mQueue ?s1) + 1\<rparr>\<rparr>"
  note i2 = removed_job_inv [OF i1 t1 c1 j1 pp]
  have m2: "mem ?s2 p = Some (?j1\<lparr>lastTime := - 1\<rparr>)" by simp
  have inq: "p \<in> set (head (mQueue ?s2))" by simp
  let ?q = "(mQueue ?s2)\<lparr>head := removeAll p (head (mQueue ?s2)),
                         size_q := int (length (removeAll p (head (mQueue ?s2))))\<rparr>"
  have prm: "priqueue_remove (mQueue ?s2) p = Inr (?q, int (count_list (head (mQueue ?s2)) p))"
    using inv_struct_withD(1) [OF i2(1)] by (rule priqueue_remove_closed)
  let ?s3 = "?s2\<lparr>mQueue := ?q,
                 totalWaitTime := totalWaitTime ?s2
                   + real_of_int (currentTime ?s2 - arrivalTime (?j1\<lparr>lastTime := - 1\<rparr>) - runTime (?j1\<lparr>lastTime := - 1\<rparr>)),
                 numWaiting := numWaiting ?s2 + 1,
                 totalTurnAroundTime := totalTurnAroundTime ?s2
                   + real_of_int (currentTime ?s2 - arrivalTime (?j1\<lparr>lastTime := - 1\<rparr>)),
                 numTurnAround := numTurnAround ?s2 + 1,
                 mem := (mem ?s2)(p := None)\<rparr>"
  have fin: "scheduler_job_finished core_id job_number time s = poll_and_assign core_id ?s3"
    unfolding scheduler_job_finished_def run sum.case rem prod.case prm m2 option.case ..
  have i3a: "inv_struct_with [p] (?s2\<lparr>mQueue := ?q\<rparr>)" using i2(1) inq by (rule inv_struct_dequeue)
  have t3a: "inv_time (?s2\<lparr>mQueue := ?q\<rparr>)" by (rule inv_time_shrink_queue [OF i2(2)]) auto
  have i3: "inv_struct_with [] ?s3" by (rule inv_struct_with_eq [OF inv_struct_free [OF i3a]]) simp_all
  have t3: "inv_time ?s3" by (rule inv_time_eq [OF inv_time_free [OF t3a, of p]]) simp_all
  have slot: "?c < length (jobs (cpu ?s3))" "jobs (cpu ?s3) ! ?c = None" using c by simp_all
  from poll_and_assign_inv [OF i3 t3 slot] cc obtain s' r
    where "poll_and_assign core_id ?s3 = Inr (s', r)" "sched_inv s'"
      "totalWaitTime s' = totalWaitTime ?s3" "numWaiting s' = numWaiting ?s3"
      "totalTurnAroundTime s' = totalTurnAroundTime ?s3" "numTurnAround s' = numTurnAround ?s3"
      "totalRespTime s' = totalRespTime ?s3" "numResponse s' = numResponse ?s3"
    by auto
  with fin fields show ?thesis by (intro exI [of _ s'] exI [of _ r]) simp
qed

lemma quantum_expired_step:
  assumes inv: "sched_inv s" and t: "currentTime s \<le> time"
    and cj: "core_job s core_id = Inr j"
  shows "\<exists>s' r. scheduler_quantum_expired core_id time s = Inr (s', r) \<and> sched_inv s'"
proof -
  note i = sched_invD [OF inv]
  from cj obtain p where c0: "0 \<le> core_id" and c: "nat core_id < length (jobs (cpu s))"
    and p: "jobs (cpu s) ! nat core_id = Some p" and j: "mem s p = Some j"
    by (rule valid_core_event)
  let ?c = "nat core_id"
  from c0 have cc: "core_id = int ?c" by simp
  let ?s1 = "advanced time s"
  let ?j1 = "cpuUpdateTime_job time j"
  have run: "cpuUpdateTime time s = Inr ?s1" using i(1) by (rule cpuUpdateTime_closed)
  have i1: "inv_struct_with [] ?s1" using i(1) by (rule inv_struct_with_advanced)
  from inv_struct_withD(4) [OF i(1)] have d: "distinct (holders s)" by simp
  have t1: "inv_time ?s1" using i(2) t d by (rule inv_time_advanced)
  from c p have pc: "p \<in> set (somes (jobs (cpu s)))" by (auto simp: set_somes dest: nth_mem)
  with j have j1: "mem ?s1 p = Some ?j1" by (simp add: advanced_mem_core)
  have c1: "?c < length (jobs (cpu ?s1))" "jobs (cpu ?s1) ! ?c = Some p" using c p by simp_all
  from c1 j1 have cj1: "core_job ?s1 core_id = Inr ?j1"
    using core_job_Some [of ?c ?s1 p ?j1] cc by simp
  from cpuCoreRemoveJob_closed [OF i1 c1 j1, of "jobNumber j"] cc
  obtain pre post where pp: "head (mQueue ?s1) = pre @ post"
    and rem: "cpuCoreRemoveJob core_id (jobNumber j) ?s1 =
       Inr (?s1\<lparr>mem := (mem ?s1)(p \<mapsto> ?j1\<lparr>lastTime := - 1\<rparr>),
              cpu := (cpu ?s1)\<lparr>jobs := (jobs (cpu ?s1))[?c := None]\<rparr>,
              mQueue := (mQueue ?s1)\<lparr>head := pre @ p # post, size_q := size_q (mQueue ?s1) + 1\<rparr>\<rparr>, p)"
    by auto
  let ?s2 = "?s1\<lparr>mem := (mem ?s1)(p \<mapsto> ?j1\<lparr>lastTime := - 1\<rparr>),
              cpu := (cpu ?s1)\<lparr>jobs := (jobs (cpu ?s1))[?c := None]\<rparr>,
              mQueue := (mQueue ?s1)\<lparr>head := pre @ p # post, size_q := size_q (mQueue ?s1) + 1\<rparr>\<rparr>"
  note i2 = removed_job_inv [OF i1 t1 c1 j1 pp]
  have qe: "scheduler_quantum_expired core_id time s = poll_and_assign core_id ?s2"
    by (simp add: scheduler_quantum_expired_def run cj1 rem)
  have slot: "?c < length (jobs (cpu ?s2))" "jobs (cpu ?s2) ! ?c = None" using c by simp_all
  from poll_and_assign_inv [OF i2 slot] cc obtain s' r
    where "poll_and_assign core_id ?s2 = Inr (s', r)" "sched_inv s'"
    by auto
  with qe show ?thesis by auto
qed

lemma handle_step:
  assumes "sched_inv s" and "valid_event s e"
  shows "\<exists>s' r. handle e s = Inr (s', r) \<and> sched_inv s'"
proof (cases e)
  case (NewJob n time r pr)
  with assms new_job_step [of s time n r pr] show ?thesis by simp
next
  case (JobFinished c n time)
  with assms(2) obtain j where "currentTime s \<le> time" "core_job s c = Inr j" "jobNumber j = n"
    by (auto split: sum.splits)
  from job_finished_step [OF assms(1) this] JobFinished show ?thesis by auto
next
  case (QuantumExpired c time)
  with assms(2) obtain j where "currentTime s \<le> time" "core_job s c = Inr j"
    by (auto split: sum.splits)
  from quantum_expired_step [OF assms(1) this] QuantumExpired show ?thesis by auto
qed

lemma run_inv:
  "sched_inv s \<Longrightarrow> valid_events es s \<Longrightarrow> \<exists>s'. run es s = Inr s' \<and> sched_inv s'"
proof (induction es arbitrary: s)
  case Nil
  then show ?case by simp
next
  case (Cons e es)
  from Cons.prems have v: "valid_event s e" by simp
  from handle_step [OF Cons.prems(1) v] obtain s1 r
    where h: "handle e s = Inr (s1, r)" and i1: "sched_inv s1" by blast
  with Cons.prems(2) have "valid_events es s1" by simp
  from Cons.IH [OF i1 this] h show ?case by simp
qed

lemma valid_events_take: "valid_events es s \<Longrightarrow> valid_events (take n es) s"
proof (induction es arbitrary: n s)
  case Nil
  then show ?case by simp
next
  case (Cons e es)
  show ?case
  proof (cases n)
    case 0
    then show ?thesis by simp
  next
    case (Suc m)
    with Cons show ?thesis by (auto split: sum.splits)
  qed
qed

lemma sched_inv_one_container:
  assumes "sched_inv s"
  shows "one_container s"
proof -
  note i = inv_struct_withD [OF sched_invD(1) [OF assms]]
  from i(4) have d: "distinct (holders s)" by simp
  from i(5) have s: "set (holders s) = dom (mem s)" by simp
  have "count_list (head (mQueue s)) p + count_list (somes (jobs (cpu s))) p
            = (if mem s p = None then 0 else 1)" for p
  proof -
    have "count_list (head (mQueue s)) p + count_list (somes (jobs (cpu s))) p
        = count (mset (holders s)) p"
      by (simp add: holders_def count_mset)
    also have "\<dots> = (if p \<in> set (holders s) then 1 else 0)"
      using d by (simp add: distinct_count_atmost_1)
    also have "\<dots> = (if mem s p = None then 0 else 1)"
      using s by (auto simp: dom_def)
    finally show ?thesis .
  qed
  then show ?thesis by (simp add: one_container_def)
qed


text \<open>
  So the invariant holds in every state that the scheduler reaches from start-up through
  valid events, and every call on the way returns.
\<close>

lemma reachable_sched_inv:
  assumes "0 < cores" and "valid_events es (started cores scheme)"
  shows "\<exists>s. run es (started cores scheme) = Inr s \<and> sched_inv s"
  using start_inv [OF assms(1)] assms(2) by (rule run_inv)


section \<open>What the calls keep of a job\<close>

lemma keeps_refl: "keeps s s"
  by (simp add: keeps_def)

lemma keepsD:
  assumes "keeps s s'" and "p < brk s"
  shows "brk s \<le> brk s'" and "mem s p = None \<Longrightarrow> mem s' p = None"
    and "mem s p = Some j \<Longrightarrow> mem s' p = Some j' \<Longrightarrow>
           arrivalTime j' = arrivalTime j \<and> runTime j' = runTime j \<and>
           (initTime j \<noteq> - 1 \<longrightarrow> initTime j' = initTime j)"
  using assms unfolding keeps_def by blast+

lemma keeps_trans:
  assumes "keeps s s1" and "keeps s1 s2"
  shows "keeps s s2"
proof -
  have b: "brk s \<le> brk s1" "brk s1 \<le> brk s2" using assms by (simp_all add: keeps_def)
  have n: "mem s2 p = None" if "p < brk s" "mem s p = None" for p
  proof -
    from that b have "p < brk s1" by simp
    moreover from keepsD(2) [OF assms(1) that] have "mem s1 p = None" .
    ultimately show ?thesis using keepsD(2) [OF assms(2)] by blast
  qed
  have k: "arrivalTime j' = arrivalTime j \<and> runTime j' = runTime j \<and>
        (initTime j \<noteq> - 1 \<longrightarrow> initTime j' = initTime j)"
    if a: "p < brk s" "mem s p = Some j" "mem s2 p = Some j'" for p j j'
  proof -
    from a(1) b have p1: "p < brk s1" by simp
    show ?thesis
    proof (cases "mem s1 p")
      case None
      from keepsD(2) [OF assms(2) p1 None] a(3) show ?thesis by simp
    next
      case (Some j1)
      from keepsD(3) [OF assms(1) a(1,2) Some] keepsD(3) [OF assms(2) p1 Some a(3)]
      show ?thesis by auto
    qed
  qed
  from b have "brk s \<le> brk s2" by simp
  with n k show ?thesis unfolding keeps_def by blast
qed

lemma keeps_queue [simp]: "keeps s (s'\<lparr>mQueue := q\<rparr>) = keeps s s'"
  by (simp add: keeps_def)

lemma keeps_advanced: "keeps s (advanced time s)"
  by (auto simp: keeps_def advanced_mem_def cpuUpdateTime_job_def Let_def split: if_splits)

lemma cpuCoreAssignJob_keeps: "cpuCoreAssignJob c job s = Inr (s', r) \<Longrightarrow> keeps s s'"
  by (auto simp: cpuCoreAssignJob_def keeps_def split: sum.splits option.splits if_splits)

lemma cpuCoreRemoveJob_keeps: "cpuCoreRemoveJob c n s = Inr (s', r) \<Longrightarrow> keeps s s'"
  by (auto simp: cpuCoreRemoveJob_def keeps_def Let_def split: sum.splits option.splits if_splits)

lemma keeps_queue_left [simp]: "keeps (s\<lparr>mQueue := q\<rparr>) s' = keeps s s'"
  by (simp add: keeps_def)

lemma poll_and_assign_keeps: "poll_and_assign c s = Inr (s', r) \<Longrightarrow> keeps s s'"
  by (auto simp: poll_and_assign_def keeps_refl split: prod.splits sum.splits option.splits
      dest!: cpuCoreAssignJob_keeps)

lemma cpuCorePreempt_keeps: "cpuCorePreempt job s = Inr (s', r) \<Longrightarrow> keeps s s'"
  by (auto simp: cpuCorePreempt_def keeps_refl split: sum.splits if_splits prod.splits
      dest!: cpuCoreAssignJob_keeps cpuCoreRemoveJob_keeps intro: keeps_trans)

lemma scheduler_new_job_keeps:
  assumes "cpuUpdateTime time s = Inr s1" and "scheduler_new_job n time r pr s = Inr (s', x)"
  shows "keeps s1 s'"
proof -
  let ?s2 = "s1\<lparr>mem := (mem s1)(brk s1 \<mapsto>
                          \<lparr>jobNumber = n, arrivalTime = time, runTime = r,
                           remainingTime = r, priority = pr,
                           initTime = - 1, lastTime = - 1\<rparr>),
                       brk := brk s1 + 1\<rparr>"
  have "keeps s1 ?s2" by (simp add: keeps_def)
  moreover have "keeps ?s2 s'"
    using assms(2) unfolding scheduler_new_job_def assms(1)
    by (auto simp: Let_def keeps_refl split: sum.splits if_splits prod.splits
        dest!: cpuCoreAssignJob_keeps cpuCorePreempt_keeps)
  ultimately show ?thesis by (rule keeps_trans)
qed

lemma scheduler_job_finished_keeps:
  assumes "cpuUpdateTime time s = Inr s1" and "scheduler_job_finished c n time s = Inr (s', x)"
  shows "keeps s1 s'"
proof -
  note fin = assms(2) [unfolded scheduler_job_finished_def assms(1) sum.case]
  obtain s2 job where r: "cpuCoreRemoveJob c n s1 = Inr (s2, job)"
    using fin by (cases "cpuCoreRemoveJob c n s1") auto
  obtain q k where pr: "priqueue_remove (mQueue s2) job = Inr (q, k)"
    using fin by (cases "priqueue_remove (mQueue s2) job") (auto simp: r)
  obtain j where m: "mem s2 job = Some j"
    using fin by (cases "mem s2 job") (auto simp: r pr)
  let ?s3 = "s2\<lparr>mQueue := q,
                 totalWaitTime := totalWaitTime s2
                   + real_of_int (currentTime s2 - arrivalTime j - runTime j),
                 numWaiting := numWaiting s2 + 1,
                 totalTurnAroundTime := totalTurnAroundTime s2
                   + real_of_int (currentTime s2 - arrivalTime j),
                 numTurnAround := numTurnAround s2 + 1,
                 mem := (mem s2)(job := None)\<rparr>"
  from fin have pa: "poll_and_assign c ?s3 = Inr (s', x)" by (simp add: r pr m)
  have "keeps s2 ?s3" by (simp add: keeps_def)
  from keeps_trans [OF cpuCoreRemoveJob_keeps [OF r] keeps_trans [OF this poll_and_assign_keeps [OF pa]]]
  show ?thesis .
qed

lemma scheduler_quantum_expired_keeps:
  assumes "cpuUpdateTime time s = Inr s1" and "scheduler_quantum_expired c time s = Inr (s', x)"
  shows "keeps s1 s'"
  using assms(2) unfolding scheduler_quantum_expired_def assms(1)
  by (auto split: sum.splits prod.splits
      dest!: cpuCoreRemoveJob_keeps poll_and_assign_keeps intro: keeps_trans)

lemma handle_keeps_advanced:
  assumes "inv_struct_with [] s" and "handle e s = Inr (s', x)"
  shows "keeps (advanced (event_time e) s) s'"
proof -
  have u: "cpuUpdateTime t s = Inr (advanced t s)" for t
    using assms(1) by (rule cpuUpdateTime_closed)
  show ?thesis
  proof (cases e)
    case (NewJob n t r pr)
    with assms(2) scheduler_new_job_keeps [OF u] show ?thesis by simp
  next
    case (JobFinished c n t)
    with assms(2) scheduler_job_finished_keeps [OF u] show ?thesis by simp
  next
    case (QuantumExpired c t)
    with assms(2) scheduler_quantum_expired_keeps [OF u] show ?thesis by simp
  qed
qed

lemma handle_keeps:
  assumes "inv_struct_with [] s" and "handle e s = Inr (s', x)"
  shows "keeps s s'"
  using keeps_advanced handle_keeps_advanced [OF assms] by (rule keeps_trans)

lemma run_keeps:
  "sched_inv s \<Longrightarrow> valid_events es s \<Longrightarrow> run es s = Inr s' \<Longrightarrow> keeps s s'"
proof (induction es arbitrary: s)
  case Nil
  then show ?case by (simp add: keeps_refl)
next
  case (Cons e es)
  from Cons.prems have v: "valid_event s e" by simp
  from handle_step [OF Cons.prems(1) v] obtain s1 r
    where h: "handle e s = Inr (s1, r)" and i1: "sched_inv s1" by blast
  with Cons.prems(2,3) have "valid_events es s1" "run es s1 = Inr s'" by simp_all
  from Cons.IH [OF i1 this] have "keeps s1 s'" .
  with handle_keeps [OF sched_invD(1) [OF Cons.prems(1)] h] show ?case by (rule keeps_trans)
qed


lemma run_append:
  "run (xs @ ys) s = (case run xs s of Inl f \<Rightarrow> Inl f | Inr s' \<Rightarrow> run ys s')"
  by (induction xs arbitrary: s) (auto split: sum.splits)

lemma valid_events_append:
  "valid_events (xs @ ys) s \<Longrightarrow> run xs s = Inr s' \<Longrightarrow> valid_events ys s'"
  by (induction xs arbitrary: s) (auto split: sum.splits)

lemma take_as_prefix:
  assumes "m < n" and "n \<le> length es"
  shows "take n es = take m es @ es ! m # drop (Suc m) (take n es)"
proof -
  from assms have "m < length (take n es)" by simp
  from id_take_nth_drop [OF this] assms show ?thesis by (simp add: min_def)
qed

lemma advanced_response:
  "totalRespTime (advanced time s) = totalRespTime s
     + real_of_int (sum_list (map (response_of (mem s)) (responders time (somes (jobs (cpu s))) (mem s))))"
  "numResponse (advanced time s) = numResponse s + int (length (responders time (somes (jobs (cpu s))) (mem s)))"
  by (simp_all add: advanced_def)

lemma first_response_kept:
  assumes inv: "sched_inv s" and h: "handle e s = Inr (s1, r)"
    and inv1: "sched_inv s1" and rest: "valid_events es s1" and run: "run es s1 = Inr s'"
    and core: "p \<in> set (somes (jobs (cpu s)))" and j: "mem s p = Some j"
    and first: "initTime j = - 1" "lastTime j \<noteq> event_time e"
    and j': "mem s' p = Some j'"
  shows "initTime j' = lastTime j \<and> arrivalTime j' = arrivalTime j \<and> lastTime j \<noteq> - 1"
proof -
  let ?t = "event_time e"
  note i = sched_invD [OF inv]
  from inv core j have "lastTime j = currentTime s" using running_lastTime by fastforce
  with inv_time_now [OF i(2)] have l: "lastTime j \<noteq> - 1" by simp
  from inv_struct_withD(6) [OF i(1)] j have b: "p < brk (advanced ?t s)" by (auto simp: dom_def)
  from core j have a: "mem (advanced ?t s) p = Some (cpuUpdateTime_job ?t j)"
    by (simp add: advanced_mem_core)
  have k: "keeps (advanced ?t s) s'"
    using handle_keeps_advanced [OF i(1) h] run_keeps [OF inv1 rest run] by (rule keeps_trans)
  from first have "initTime (cpuUpdateTime_job ?t j) = lastTime j"
    "arrivalTime (cpuUpdateTime_job ?t j) = arrivalTime j"
    by (simp_all add: cpuUpdateTime_job_def Let_def)
  with keepsD(3) [OF k b a j'] l show ?thesis by simp
qed

lemma valid_events_nth:
  assumes "valid_events es s0" and "n < length es" and "run (take n es) s0 = Inr s"
  shows "valid_event s (es ! n)"
proof -
  from assms(2) have "es = take n es @ es ! n # drop (Suc n) es" by (simp add: id_take_nth_drop)
  with assms(1) have "valid_events (take n es @ es ! n # drop (Suc n) es) s0" by simp
  from valid_events_append [OF this assms(3)] show ?thesis by simp
qed

section \<open>Rounding to a floating-point format\<close>

lemma two_powi_nat: "0 \<le> e \<Longrightarrow> (2 :: real) powi e = 2 ^ nat e"
  by (simp add: power_int_def)

lemma of_int_le_two_power: "z \<le> 2 ^ n \<Longrightarrow> (of_int z :: real) \<le> 2 ^ n"
  by (metis of_int_le_iff of_int_numeral of_int_power)

lemma two_power_le_of_int: "2 ^ n \<le> z \<Longrightarrow> (2 :: real) ^ n \<le> of_int z"
  by (metis of_int_le_iff of_int_numeral of_int_power)

lemma binade_bounds:
  assumes "x \<noteq> 0"
  shows "2 powi binade x \<le> \<bar>x\<bar>" and "\<bar>x\<bar> < 2 powi (binade x + 1)"
proof -
  have "2 powi binade x \<le> \<bar>x\<bar> \<and> \<bar>x\<bar> < 2 powi (binade x + 1)"
  proof (cases "1 \<le> \<bar>x\<bar>")
    case True
    let ?n = "\<lfloor>\<bar>x\<bar>\<rfloor>"
    from True have n: "0 < ?n" by simp
    from bitlen_bounds [OF n] have lo: "2 ^ nat (bitlen ?n - 1) \<le> ?n" and hi: "?n < 2 ^ nat (bitlen ?n)"
      by simp_all
    from n have b1: "1 \<le> bitlen ?n" by (simp add: bitlen_alt_def)
    have "(2::real) ^ nat (bitlen ?n - 1) \<le> of_int ?n" using lo by (rule two_power_le_of_int)
    also have "\<dots> \<le> \<bar>x\<bar>" by (rule of_int_floor_le)
    finally have a: "(2::real) ^ nat (bitlen ?n - 1) \<le> \<bar>x\<bar>" .
    from hi have "?n + 1 \<le> 2 ^ nat (bitlen ?n)" by simp
    then have "(of_int (?n + 1) :: real) \<le> 2 ^ nat (bitlen ?n)" by (rule of_int_le_two_power)
    moreover have "\<bar>x\<bar> < of_int (?n + 1)" by linarith
    ultimately have b: "\<bar>x\<bar> < (2::real) ^ nat (bitlen ?n)" by (rule less_le_trans [rotated])
    from b1 have "nat (bitlen ?n - 1 + 1) = nat (bitlen ?n)" by simp
    with a b True b1 show ?thesis by (simp add: binade_def two_powi_nat)
  next
    case False
    with assms have x: "0 < \<bar>x\<bar>" "\<bar>x\<bar> < 1" by simp_all
    let ?c = "\<lceil>1 / \<bar>x\<bar>\<rceil>"
    let ?k = "bitlen (?c - 1)"
    from x have y: "1 < 1 / \<bar>x\<bar>" by simp
    then have c: "0 < ?c - 1" by (simp add: less_ceiling_iff)
    from bitlen_bounds [OF c] have lo: "2 ^ nat (?k - 1) \<le> ?c - 1" and hi: "?c - 1 < 2 ^ nat ?k"
      by simp_all
    from c have k1: "1 \<le> ?k" by (simp add: bitlen_alt_def)
    from hi have "?c \<le> 2 ^ nat ?k" by simp
    then have "(of_int ?c :: real) \<le> 2 ^ nat ?k" by (rule of_int_le_two_power)
    with le_of_int_ceiling [of "1 / \<bar>x\<bar>"] have "1 / \<bar>x\<bar> \<le> 2 ^ nat ?k" by (rule order_trans)
    with x(1) have a: "1 / 2 ^ nat ?k \<le> \<bar>x\<bar>" by (simp add: field_simps)
    have "(2 :: real) ^ nat (?k - 1) \<le> of_int (?c - 1)" using lo by (rule two_power_le_of_int)
    moreover have "of_int (?c - 1) < 1 / \<bar>x\<bar>" by linarith
    ultimately have "(2::real) ^ nat (?k - 1) < 1 / \<bar>x\<bar>" by (rule le_less_trans)
    with x(1) have b: "\<bar>x\<bar> < 1 / 2 ^ nat (?k - 1)" by (simp add: field_simps)
    have "2 powi (- ?k) = (1 :: real) / 2 ^ nat ?k"
      using k1 by (simp add: power_int_minus_divide two_powi_nat)
    moreover have "2 powi (- ?k + 1) = (1 :: real) / 2 ^ nat (?k - 1)"
    proof -
      have "- ?k + 1 = - (?k - 1)" by simp
      then show ?thesis using k1 by (simp only: power_int_minus_divide) (simp add: two_powi_nat)
    qed
    ultimately show ?thesis using False a b by (simp add: binade_def)
  qed
  then show "2 powi binade x \<le> \<bar>x\<bar>" and "\<bar>x\<bar> < 2 powi (binade x + 1)" by simp_all
qed

lemma round_even_near: "\<bar>of_int (round_even y) - y\<bar> \<le> 1 / 2"
  using floor_correct [of y] by (auto simp: round_even_def Let_def)

lemma round_even_int [simp]: "round_even (of_int z) = z"
  by (simp add: round_even_def)

lemma round_even_ge: "of_int N \<le> y \<Longrightarrow> N \<le> round_even y"
proof -
  assume "of_int N \<le> y"
  then have "N \<le> \<lfloor>y\<rfloor>" by (simp add: le_floor_iff)
  then show ?thesis by (auto simp: round_even_def Let_def)
qed

lemma round_even_le: "y \<le> of_int N \<Longrightarrow> round_even y \<le> N"
proof -
  assume a: "y \<le> of_int N"
  show ?thesis
  proof (cases "y = of_int N")
    case True then show ?thesis by simp
  next
    case False
    with a have "y < of_int N" by simp
    then have "\<lfloor>y\<rfloor> < N" by (simp add: floor_less_iff)
    then show ?thesis by (auto simp: round_even_def Let_def)
  qed
qed


lemma binade_ge:
  assumes "2 powi e \<le> \<bar>x\<bar>"
  shows "e \<le> binade x"
proof (rule ccontr)
  assume "\<not> e \<le> binade x"
  then have "binade x + 1 \<le> e" by simp
  then have "(2 :: real) powi (binade x + 1) \<le> 2 powi e" by (rule power_int_increasing) simp
  moreover have "(0 :: real) < 2 powi e" by simp
  with assms have "0 < \<bar>x\<bar>" by linarith
  then have "x \<noteq> 0" by simp
  ultimately show False using binade_bounds(2) [of x] assms by simp
qed

lemma binade_less:
  assumes "x \<noteq> 0" and "\<bar>x\<bar> < 2 powi e"
  shows "binade x < e"
proof (rule ccontr)
  assume "\<not> binade x < e"
  then have "e \<le> binade x" by simp
  then have "(2 :: real) powi e \<le> 2 powi binade x" by (rule power_int_increasing) simp
  with binade_bounds(1) [OF assms(1)] assms(2) show False by simp
qed

lemma two_powi_add: "(2 :: real) powi (a + b) = 2 powi a * 2 powi b"
  by (rule power_int_add) simp

lemma two_powi_diff: "(2 :: real) powi (a - b) = 2 powi a / 2 powi b"
  by (rule power_int_diff) simp

lemma round_to_format_exact:
  assumes x: "x = of_int m * 2 powi k" and m: "\<bar>m\<bar> < 2 ^ p"
    and k: "emin - int p + 1 \<le> k" and big: "\<bar>x\<bar> < 2 powi (emax + 1)"
  shows "round_to_format p emin emax x = Finite x"
proof (cases "x = 0")
  case True
  then show ?thesis by (simp add: round_to_format_def)
next
  case False
  let ?e = "max (binade x) emin"
  let ?d = "k - (?e - int p + 1)"
  have "\<bar>x\<bar> = of_int \<bar>m\<bar> * 2 powi k" by (simp add: x abs_mult)
  also have "\<dots> < 2 ^ p * 2 powi k"
  proof -
    from m have "(of_int \<bar>m\<bar> :: real) < of_int (2 ^ p)" by (simp only: of_int_less_iff)
    then have "(of_int \<bar>m\<bar> :: real) < 2 ^ p" by simp
    then show ?thesis by (simp add: mult_strict_right_mono)
  qed
  also have "\<dots> = 2 powi (int p + k)" by (simp add: two_powi_add)
  finally have "binade x < int p + k" by (rule binade_less [OF False])
  with k have d: "0 \<le> ?d" by simp
  have "x / 2 powi (?e - int p + 1) = of_int m * 2 powi ?d"
    unfolding two_powi_diff [of k] x by simp
  also have "\<dots> = of_int (m * 2 ^ nat ?d)" using d by (simp add: two_powi_nat)
  finally have "round_even (x / 2 powi (?e - int p + 1)) = m * 2 ^ nat ?d"
    by (simp only: round_even_int)
  then have "real_of_int (round_even (x / 2 powi (?e - int p + 1))) * 2 powi (?e - int p + 1)
      = real_of_int m * 2 powi ?d * 2 powi (?e - int p + 1)"
    using d by (simp add: two_powi_nat)
  also have "\<dots> = x" unfolding x mult.assoc two_powi_add [symmetric] by simp
  finally show ?thesis using False big by (simp add: round_to_format_def Let_def)
qed

lemma round_to_format_near:
  assumes "x \<noteq> 0" and lo: "emin \<le> binade x" and hi: "binade x < emax" and p: "0 < p"
  shows "\<exists>r. round_to_format p emin emax x = Finite r \<and>
     \<bar>r - x\<bar> \<le> \<bar>x\<bar> * 2 powi (- int p) \<and>
     2 powi binade x \<le> \<bar>r\<bar> \<and> \<bar>r\<bar> \<le> 2 powi (binade x + 1)"
proof -
  let ?b = "binade x"
  let ?u = "(2 :: real) powi (?b - int p + 1)"
  let ?z = "round_even (x / ?u)"
  let ?r = "of_int ?z * ?u"
  have u: "0 < ?u" by simp
  from lo have e: "max ?b emin = ?b" by simp
  note b = binade_bounds [OF assms(1)]
  have half: "?u / 2 = 2 powi ?b * 2 powi (- int p)"
    by (simp add: two_powi_add [symmetric] power_int_minus_divide two_powi_diff two_powi_add)
  have "?r - x = (of_int ?z - x / ?u) * ?u" using u by (simp add: left_diff_distrib)
  then have "\<bar>?r - x\<bar> = \<bar>of_int ?z - x / ?u\<bar> * ?u"
    using u by (simp only: abs_mult abs_of_pos)
  also have "\<dots> \<le> 1 / 2 * ?u" using round_even_near [of "x / ?u"] u by (intro mult_right_mono) simp_all
  also have "\<dots> = 2 powi ?b * 2 powi (- int p)" using half by simp
  also have "\<dots> \<le> \<bar>x\<bar> * 2 powi (- int p)" using b(1) by (intro mult_right_mono) simp_all
  finally have near: "\<bar>?r - x\<bar> \<le> \<bar>x\<bar> * 2 powi (- int p)" .
  have pw: "(2 :: real) ^ (p - 1) * ?u = 2 powi ?b" "(2 :: real) ^ p * ?u = 2 powi (?b + 1)"
  proof -
    from p have "(2 :: real) ^ (p - 1) = 2 powi (int p - 1)" by (simp add: two_powi_nat nat_diff_distrib)
    then show "(2 :: real) ^ (p - 1) * ?u = 2 powi ?b" by (simp add: two_powi_add [symmetric])
    have "(2 :: real) ^ p = 2 powi int p" by simp
    then show "(2 :: real) ^ p * ?u = 2 powi (?b + 1)" by (simp only: two_powi_add [symmetric]) simp
  qed
  have range: "2 powi ?b \<le> \<bar>?r\<bar> \<and> \<bar>?r\<bar> \<le> 2 powi (?b + 1)"
  proof (cases "0 < x")
    case True
    from b(1) True have "2 powi ?b \<le> x" by simp
    then have "2 ^ (p - 1) * ?u \<le> x" by (simp only: pw)
    then have "of_int (2 ^ (p - 1)) \<le> x / ?u" using u by (simp add: field_simps)
    then have "2 ^ (p - 1) \<le> ?z" by (rule round_even_ge)
    then have lo': "(2 :: real) ^ (p - 1) \<le> of_int ?z" by (rule two_power_le_of_int)
    from b(2) True have "x \<le> 2 powi (?b + 1)" by simp
    then have "x \<le> 2 ^ p * ?u" by (simp only: pw)
    then have "x / ?u \<le> of_int (2 ^ p)" using u by (simp add: field_simps)
    then have "?z \<le> 2 ^ p" by (rule round_even_le)
    then have hi': "of_int ?z \<le> (2 :: real) ^ p" by (rule of_int_le_two_power)
    from lo' have z0: "(0 :: real) \<le> of_int ?z" by (rule order_trans [rotated]) simp
    from lo' u have "2 ^ (p - 1) * ?u \<le> ?r" by (intro mult_right_mono) simp_all
    moreover from hi' u have "?r \<le> 2 ^ p * ?u" by (intro mult_right_mono) simp_all
    moreover from z0 u have "0 \<le> ?r" by simp
    ultimately show ?thesis unfolding pw by simp
  next
    case False
    with assms(1) have neg: "x < 0" by simp
    from b(1) neg have "x \<le> - (2 powi ?b)" by simp
    then have "x \<le> - (2 ^ (p - 1) * ?u)" by (simp only: pw)
    then have "x / ?u \<le> of_int (- (2 ^ (p - 1)))" using u by (simp add: field_simps)
    then have "?z \<le> - (2 ^ (p - 1))" by (rule round_even_le)
    then have "2 ^ (p - 1) \<le> - ?z" by simp
    then have lo': "(2 :: real) ^ (p - 1) \<le> of_int (- ?z)" by (rule two_power_le_of_int)
    from b(2) neg have "- (2 powi (?b + 1)) \<le> x" by simp
    then have "- (2 ^ p * ?u) \<le> x" by (simp only: pw)
    then have "of_int (- (2 ^ p)) \<le> x / ?u" using u by (simp add: field_simps)
    then have "- (2 ^ p) \<le> ?z" by (rule round_even_ge)
    then have "- ?z \<le> 2 ^ p" by simp
    then have hi': "of_int (- ?z) \<le> (2 :: real) ^ p" by (rule of_int_le_two_power)
    from lo' have z0: "(0 :: real) \<le> of_int (- ?z)" by (rule order_trans [rotated]) simp
    from lo' u have "2 ^ (p - 1) * ?u \<le> of_int (- ?z) * ?u" by (intro mult_right_mono) simp_all
    moreover from hi' u have "of_int (- ?z) * ?u \<le> 2 ^ p * ?u" by (intro mult_right_mono) simp_all
    moreover from z0 u have "\<bar>?r\<bar> = of_int (- ?z) * ?u" by (simp add: abs_mult)
    ultimately show ?thesis unfolding pw by simp
  qed
  from hi have "(2 :: real) powi (?b + 1) \<le> 2 powi emax" by (intro power_int_increasing) simp_all
  also have "\<dots> < 2 powi (emax + 1)" by (intro power_int_strict_increasing) simp_all
  finally have "\<bar>?r\<bar> < 2 powi (emax + 1)" using range by simp
  then have "round_to_format p emin emax x = Finite ?r"
    using assms(1) e by (simp add: round_to_format_def Let_def)
  with near range show ?thesis by blast
qed


lemma round_even_nearest: "\<bar>of_int (round_even y) - y\<bar> \<le> \<bar>of_int k - y\<bar>"
proof (cases "k = round_even y")
  case True
  then show ?thesis by simp
next
  case False
  then have "1 \<le> \<bar>k - round_even y\<bar>" by simp
  then have "(1 :: real) \<le> \<bar>of_int k - of_int (round_even y)\<bar>"
    by (metis of_int_1 of_int_abs of_int_diff of_int_le_iff)
  with round_even_near [of y] show ?thesis by linarith
qed

lemma multiple_nearest:
  assumes "0 < u"
  shows "\<bar>of_int (round_even (x / u)) * u - x\<bar> \<le> \<bar>of_int k * u - x\<bar>"
proof -
  have a: "of_int j * u - x = (of_int j - x / u) * u" for j :: int
    using assms by (simp add: left_diff_distrib)
  have "\<bar>of_int (round_even (x / u)) - x / u\<bar> * u \<le> \<bar>of_int k - x / u\<bar> * u"
    using round_even_nearest [of "x / u" k] assms by (intro mult_right_mono) simp_all
  then show ?thesis using assms by (simp only: a abs_mult abs_of_pos)
qed

lemma two_powi_split:
  assumes "a \<le> b"
  shows "(2 :: real) powi b = of_int (2 ^ nat (b - a)) * 2 powi a"
proof -
  have "(2 :: real) powi b = 2 powi (b - a) * 2 powi a" by (simp add: two_powi_add [symmetric])
  with assms show ?thesis by (simp add: two_powi_nat)
qed

lemma format_value_multiple:
  assumes "format_value p emin emax f" and "e \<le> max (binade f) emin"
  shows "\<exists>k. f = of_int k * 2 powi (e - int p + 1)"
proof -
  define uf :: real where "uf = 2 powi (max (binade f) emin - int p + 1)"
  define n where "n = \<lfloor>f / uf\<rfloor>"
  define d where "d = nat (max (binade f) emin - e)"
  from assms(1) have "of_int n = f / uf"
    unfolding format_value_def Let_def n_def uf_def by (rule conjunct2)
  moreover have "uf \<noteq> 0" by (simp add: uf_def)
  ultimately have f: "f = of_int n * uf" by simp
  from assms(2) have "uf = of_int (2 ^ d) * 2 powi (e - int p + 1)"
    unfolding uf_def d_def
    using two_powi_split [of "e - int p + 1" "max (binade f) emin - int p + 1"] by simp
  with f have "f = of_int (n * 2 ^ d) * 2 powi (e - int p + 1)" by simp
  then show ?thesis by blast
qed

lemma multiple_format_value:
  assumes r: "r = of_int z * 2 powi (e - int p + 1)" and le: "\<bar>r\<bar> \<le> 2 powi (e + 1)"
    and e: "emin \<le> e" "e < emax" and p: "0 < p"
  shows "format_value p emin emax r"
proof -
  let ?u = "(2 :: real) powi (e - int p + 1)"
  let ?er = "max (binade r) emin"
  from e(2) have "(2 :: real) powi (e + 1) \<le> 2 powi emax" by (intro power_int_increasing) simp_all
  also have "\<dots> < 2 powi (emax + 1)" by (intro power_int_strict_increasing) simp_all
  finally have big: "\<bar>r\<bar> < 2 powi (emax + 1)" using le by simp
  have "\<exists>n. r / 2 powi (?er - int p + 1) = of_int n"
  proof (cases "\<bar>r\<bar> < 2 powi (e + 1)")
    case True
    show ?thesis
    proof (cases "r = 0")
      case True
      then have "r / 2 powi (?er - int p + 1) = of_int 0" by simp
      then show ?thesis by blast
    next
      case False
    from binade_less [OF False True] e(1) have "?er \<le> e" by simp
    from two_powi_split [of "?er - int p + 1" "e - int p + 1"] this
    have "?u = of_int (2 ^ nat (e - ?er)) * 2 powi (?er - int p + 1)" by simp
    then have "r = of_int (z * 2 ^ nat (e - ?er)) * 2 powi (?er - int p + 1)"
      unfolding r by (simp only: of_int_mult mult.assoc)
    then have "r / 2 powi (?er - int p + 1) = of_int (z * 2 ^ nat (e - ?er))"
      by (simp add: field_simps)
    then show ?thesis by blast
    qed
  next
    case False
    with le have eq: "\<bar>r\<bar> = 2 powi (e + 1)" by simp
    then have "e + 1 \<le> binade r" by (intro binade_ge) simp
    moreover have "r \<noteq> 0" using eq by auto
    moreover have "(2 :: real) powi (e + 1) < 2 powi (e + 2)" by (intro power_int_strict_increasing) simp_all
    ultimately have "binade r = e + 1" using binade_less [of r "e + 2"] eq by simp
    with e(1) have er: "?er = e + 1" by simp
    have u2: "(2 :: real) powi (?er - int p + 1) = 2 * ?u"
      unfolding er using two_powi_split [of "e - int p + 1" "e + 1 - int p + 1"] by simp
    have pw: "(2 :: real) powi (e + 1) = of_int (2 ^ p) * ?u"
      using two_powi_split [of "e - int p + 1" "e + 1"] by simp
    from p have half: "(2 :: int) ^ p = 2 * 2 ^ (p - 1)" by (cases p) simp_all
    have "\<bar>real_of_int z\<bar> * ?u = of_int (2 ^ p) * ?u" using eq unfolding r pw by (simp add: abs_mult)
    then have "\<bar>real_of_int z\<bar> = of_int (2 ^ p)" by simp
    then have "\<bar>z\<bar> = 2 ^ p" by (metis of_int_abs of_int_eq_iff)
    then have "z = 2 * 2 ^ (p - 1) \<or> z = - (2 * 2 ^ (p - 1))" unfolding half by auto
    then show ?thesis
    proof
      assume "z = 2 * 2 ^ (p - 1)"
      then have "r / (2 * ?u) = of_int (2 ^ (p - 1))" by (simp add: r)
      then have "r / 2 powi (?er - int p + 1) = of_int (2 ^ (p - 1))" by (simp only: u2)
      then show ?thesis by blast
    next
      assume "z = - (2 * 2 ^ (p - 1))"
      then have "r / (2 * ?u) = of_int (- (2 ^ (p - 1)))" by (simp add: r)
      then have "r / 2 powi (?er - int p + 1) = of_int (- (2 ^ (p - 1)))" by (simp only: u2)
      then show ?thesis by blast
    qed
  qed
  then have "of_int \<lfloor>r / 2 powi (?er - int p + 1)\<rfloor> = r / 2 powi (?er - int p + 1)" by auto
  with big show ?thesis by (simp add: format_value_def Let_def)
qed


lemma round_to_format_nearest:
  assumes hi: "binade x < emax" and em: "emin < emax" and p: "0 < p"
  shows "\<exists>r. round_to_format p emin emax x = Finite r \<and> nearest_value p emin emax x r \<and>
           \<bar>r\<bar> \<le> 2 powi (max (binade x) emin + 1)"
proof (cases "x = 0")
  case True
  have "(0 :: real) < 2 powi (emax + 1)" by simp
  then have "format_value p emin emax 0" by (simp add: format_value_def)
  with True show ?thesis by (simp add: round_to_format_def nearest_value_def)
next
  case False
  define e where "e = max (binade x) emin"
  define u :: real where "u = 2 powi (e - int p + 1)"
  define z where "z = round_even (x / u)"
  define r where "r = of_int z * u"
  have u: "0 < u" by (simp add: u_def)
  have e: "emin \<le> e" "binade x \<le> e" "e < emax" using hi em by (simp_all add: e_def)
  note b = binade_bounds [OF False]
  have pw: "(2 :: real) powi (e + 1) = of_int (2 ^ p) * u"
    unfolding u_def using two_powi_split [of "e - int p + 1" "e + 1"] by simp
  from e(2) have "(2 :: real) powi (binade x + 1) \<le> 2 powi (e + 1)"
    by (intro power_int_increasing) simp_all
  with b(2) have xb: "\<bar>x\<bar> < of_int (2 ^ p) * u" unfolding pw by simp
  then have q: "x / u \<le> of_int (2 ^ p)" "of_int (- (2 ^ p)) \<le> x / u"
    using u by (simp_all add: field_simps abs_less_iff)
  from q(1) have "z \<le> 2 ^ p" unfolding z_def by (rule round_even_le)
  moreover from q(2) have "- (2 ^ p) \<le> z" unfolding z_def by (rule round_even_ge)
  ultimately have "\<bar>z\<bar> \<le> 2 ^ p" by simp
  then have "\<bar>real_of_int z\<bar> \<le> of_int (2 ^ p)" by (metis of_int_abs of_int_le_iff)
  then have "\<bar>real_of_int z\<bar> * u \<le> of_int (2 ^ p) * u" using u by (intro mult_right_mono) simp_all
  then have rb: "\<bar>r\<bar> \<le> 2 powi (e + 1)" using u unfolding pw r_def by (simp only: abs_mult abs_of_pos)
  have fv: "format_value p emin emax r"
    using r_def [unfolded u_def] rb e(1,3) p by (rule multiple_format_value)
  then have "\<bar>r\<bar> < 2 powi (emax + 1)" by (simp add: format_value_def)
  then have res: "round_to_format p emin emax x = Finite r"
    using False by (simp add: round_to_format_def Let_def r_def z_def u_def e_def)
  have near: "\<bar>r - x\<bar> \<le> \<bar>of_int k * u - x\<bar>" for k
    unfolding r_def z_def using u by (rule multiple_nearest)
  have best: "\<bar>r - x\<bar> \<le> \<bar>f - x\<bar>" if f: "format_value p emin emax f" for f
  proof (cases "e \<le> max (binade f) emin")
    case True
    from format_value_multiple [OF f True] obtain k where "f = of_int k * u"
      unfolding u_def by blast
    with near [of k] show ?thesis by simp
  next
    case False
    then have lt: "max (binade f) emin < e" by linarith
    then have "emin < max (binade x) emin" "binade f < max (binade x) emin"
      unfolding e_def by linarith+
    then have ex: "e = binade x" and bf: "binade f < binade x" unfolding e_def by linarith+
    have small: "\<bar>f\<bar> \<le> 2 powi e"
    proof (cases "f = 0")
      case True
      then show ?thesis by simp
    next
      case False
      from bf have "(2 :: real) powi (binade f + 1) \<le> 2 powi e"
        unfolding ex by (intro power_int_increasing) simp_all
      with binade_bounds(2) [OF False] show ?thesis by simp
    qed
    from p have half: "(2 :: int) ^ p = 2 * 2 ^ (p - 1)" by (cases p) simp_all
    have edge: "(2 :: real) powi e = of_int (2 ^ (p - 1)) * u"
      using pw unfolding half two_powi_add by simp
    from b(1) have xe: "2 powi e \<le> \<bar>x\<bar>" unfolding ex .
    show ?thesis
    proof (cases "0 < x")
      case True
      with xe small have "\<bar>of_int (2 ^ (p - 1)) * u - x\<bar> \<le> \<bar>f - x\<bar>" unfolding edge [symmetric] by simp
      with near [of "2 ^ (p - 1)"] show ?thesis by simp
    next
      case False
      with xe small have "\<bar>of_int (- (2 ^ (p - 1))) * u - x\<bar> \<le> \<bar>f - x\<bar>"
        unfolding of_int_minus mult_minus_left edge [symmetric] by simp
      with near [of "- (2 ^ (p - 1))"] show ?thesis by simp
    qed
  qed
  from res fv best rb show ?thesis unfolding nearest_value_def e_def by blast
qed

lemma quotient_exact:
  assumes "x / y = real_of_int m * 2 powi k" and "\<bar>m\<bar> < 2 ^ 24" and "- 149 \<le> k"
    and "\<bar>x / y\<bar> < 2 powi 128"
  shows "to_float (double_div x y) = Finite (x / y)"
proof -
  from assms(2) have "\<bar>m\<bar> < 2 ^ 53" by simp
  moreover from assms(3) have "- 1022 - int 53 + 1 \<le> k" by simp
  moreover have "(2 :: real) powi 128 \<le> 2 powi (1023 + 1)" by (intro power_int_increasing) simp_all
  with assms(4) have "\<bar>x / y\<bar> < 2 powi (1023 + 1)" by simp
  ultimately have "double_div x y = Finite (x / y)"
    unfolding double_div_def using assms(1) by (intro round_to_format_exact)
  moreover from assms(3) have "- 126 - int 24 + 1 \<le> k" by simp
  with assms(1,2) have "round_to_format 24 (- 126) 127 (x / y) = Finite (x / y)"
    using assms(4) by (intro round_to_format_exact) simp_all
  ultimately show ?thesis by simp
qed

lemma quotient_near:
  assumes lo: "2 powi (- 126) \<le> \<bar>x / y\<bar>" and hi: "\<bar>x / y\<bar> < 2 powi 126"
  shows "\<exists>r. to_float (double_div x y) = Finite r \<and> \<bar>r - x / y\<bar> \<le> \<bar>x / y\<bar> / 2 ^ 23"
proof -
  let ?q = "x / y"
  have "(0 :: real) < 2 powi (- 126)" by simp
  with lo have q0: "?q \<noteq> 0" by auto
  from lo have b1: "- 126 \<le> binade ?q" by (rule binade_ge)
  from q0 hi have b2: "binade ?q < 126" by (rule binade_less)
  from b1 b2 round_to_format_near [OF q0, of "- 1022" 1023 53]
  obtain d where d: "double_div x y = Finite d" "\<bar>d - ?q\<bar> \<le> \<bar>?q\<bar> * 2 powi (- int 53)"
    "2 powi binade ?q \<le> \<bar>d\<bar>" "\<bar>d\<bar> \<le> 2 powi (binade ?q + 1)"
    unfolding double_div_def by auto
  have "(0 :: real) < 2 powi binade ?q" by simp
  with d(3) have "0 < \<bar>d\<bar>" by linarith
  then have d0: "d \<noteq> 0" by simp
  from b1 have "(2 :: real) powi (- 126) \<le> 2 powi binade ?q" by (intro power_int_increasing) simp_all
  with d(3) have "2 powi (- 126) \<le> \<bar>d\<bar>" by simp
  then have c1: "- 126 \<le> binade d" by (rule binade_ge)
  from b2 have "(2 :: real) powi (binade ?q + 1) \<le> 2 powi 126" by (intro power_int_increasing) simp_all
  also have "\<dots> < 2 powi 127" by (intro power_int_strict_increasing) simp_all
  finally have "\<bar>d\<bar> < 2 powi 127" using d(4) by simp
  with d0 have c2: "binade d < 127" by (rule binade_less)
  from c1 c2 round_to_format_near [OF d0, of "- 126" 127 24]
  obtain r where r: "round_to_format 24 (- 126) 127 d = Finite r" "\<bar>r - d\<bar> \<le> \<bar>d\<bar> * 2 powi (- int 24)"
    by auto
  have p53: "(2 :: real) powi (- int 53) = 1 / 2 ^ 53" and p24: "(2 :: real) powi (- int 24) = 1 / 2 ^ 24"
    by (simp_all add: power_int_minus_divide)
  from d(2) have e1: "\<bar>d - ?q\<bar> \<le> \<bar>?q\<bar> / 2 ^ 53" unfolding p53 by simp
  then have "\<bar>d\<bar> \<le> \<bar>?q\<bar> + \<bar>?q\<bar> / 2 ^ 53" by linarith
  then have "\<bar>d\<bar> / 2 ^ 24 \<le> (\<bar>?q\<bar> + \<bar>?q\<bar> / 2 ^ 53) / 2 ^ 24" by (simp add: divide_right_mono)
  with r(2) have e2: "\<bar>r - d\<bar> \<le> (\<bar>?q\<bar> + \<bar>?q\<bar> / 2 ^ 53) / 2 ^ 24" unfolding p24 by simp
  have "\<bar>r - ?q\<bar> \<le> \<bar>r - d\<bar> + \<bar>d - ?q\<bar>" by linarith
  also have "\<dots> \<le> (\<bar>?q\<bar> + \<bar>?q\<bar> / 2 ^ 53) / 2 ^ 24 + \<bar>?q\<bar> / 2 ^ 53" using e1 e2 by linarith
  also have "\<dots> \<le> \<bar>?q\<bar> / 2 ^ 23"
  proof -
    have "(a + a / 2 ^ 53) / 2 ^ 24 + a / 2 ^ 53 \<le> a / 2 ^ 23" if "0 \<le> a" for a :: real
      using that by simp
    from this [of "\<bar>?q\<bar>"] show ?thesis by (simp only: abs_ge_zero)
  qed
  finally show ?thesis using d(1) r(1) by simp
qed

lemma binade_zero: "binade 0 = 0"
  by (simp add: binade_def bitlen_alt_def)

lemma quotient_nearest:
  assumes hi: "\<bar>x / y\<bar> < 2 powi 126"
  shows "\<exists>d r. to_float (double_div x y) = Finite r \<and>
     nearest_value 53 (- 1022) 1023 (x / y) d \<and> nearest_value 24 (- 126) 127 d r"
proof -
  define q where "q = x / y"
  have bq: "binade q < 126"
  proof (cases "q = 0")
    case True
    then show ?thesis by (simp add: binade_zero)
  next
    case False
    then show ?thesis using hi unfolding q_def [symmetric] by (rule binade_less)
  qed
  then have "binade q < 1023" by simp
  from round_to_format_nearest [OF this, of "- 1022" 53]
  obtain d where d: "double_div x y = Finite d" "nearest_value 53 (- 1022) 1023 q d"
    "\<bar>d\<bar> \<le> 2 powi (max (binade q) (- 1022) + 1)"
    unfolding double_div_def q_def by auto
  from bq have "(2 :: real) powi (max (binade q) (- 1022) + 1) \<le> 2 powi 126"
    by (intro power_int_increasing) simp_all
  also have "\<dots> < 2 powi 127" by (intro power_int_strict_increasing) simp_all
  finally have db: "\<bar>d\<bar> < 2 powi 127" using d(3) by simp
  have "binade d < 127"
  proof (cases "d = 0")
    case True
    then show ?thesis by (simp add: binade_zero)
  next
    case False
    then show ?thesis using db by (rule binade_less)
  qed
  from round_to_format_nearest [OF this, of "- 126" 24]
  obtain r where "round_to_format 24 (- 126) 127 d = Finite r" "nearest_value 24 (- 126) 127 d r"
    by auto
  with d(1,2) show ?thesis unfolding q_def by auto
qed

text \<open>
  Some quotients as the average functions return them: 10 / 3 and 26 / 3 become
  3.3333332538604736328125 and 8.66666698455810546875, and of two values of type
  \<^verbatim>\<open>float\<close> that are equally near the one with the even last bit is taken.
\<close>

lemma float_examples:
  "to_float (double_div 10 3) = Finite (13981013 / 4194304)"
  "to_float (double_div 26 3) = Finite (9087659 / 1048576)"
  "to_float (double_div 16777217 1) = Finite 16777216"
  "to_float (double_div 16777219 1) = Finite 16777220"
  by (simp_all add: double_div_def round_to_format_def binade_def round_even_def Let_def
      compute_bitlen)

lemma rounded_quotientD:
  assumes "rounded_quotient acc counter m k a"
  shows "counter = 0 \<Longrightarrow> a = Finite 0"
    and "counter \<noteq> 0 \<Longrightarrow> acc / real_of_int counter = real_of_int m * 2 powi k \<Longrightarrow> \<bar>m\<bar> < 2 ^ 24 \<Longrightarrow>
         - 149 \<le> k \<Longrightarrow> \<bar>acc / real_of_int counter\<bar> < 2 powi 128 \<Longrightarrow>
         a = Finite (acc / real_of_int counter)"
    and "counter \<noteq> 0 \<Longrightarrow> 2 powi (- 126) \<le> \<bar>acc / real_of_int counter\<bar> \<Longrightarrow>
         \<bar>acc / real_of_int counter\<bar> < 2 powi 126 \<Longrightarrow>
         \<exists>r. a = Finite r \<and> \<bar>r - acc / real_of_int counter\<bar> \<le> \<bar>acc / real_of_int counter\<bar> / 2 ^ 23"
    and "counter \<noteq> 0 \<Longrightarrow> \<bar>acc / real_of_int counter\<bar> < 2 powi 126 \<Longrightarrow>
         \<exists>d r. a = Finite r \<and> nearest_value 53 (- 1022) 1023 (acc / real_of_int counter) d \<and>
           nearest_value 24 (- 126) 127 d r"
proof -
  note r = assms [unfolded rounded_quotient_def Let_def]
  from r show "counter = 0 \<Longrightarrow> a = Finite 0" by blast
  from r show "counter \<noteq> 0 \<Longrightarrow> acc / real_of_int counter = real_of_int m * 2 powi k \<Longrightarrow> \<bar>m\<bar> < 2 ^ 24 \<Longrightarrow>
         - 149 \<le> k \<Longrightarrow> \<bar>acc / real_of_int counter\<bar> < 2 powi 128 \<Longrightarrow>
         a = Finite (acc / real_of_int counter)" by blast
  show "\<exists>r. a = Finite r \<and> \<bar>r - acc / real_of_int counter\<bar> \<le> \<bar>acc / real_of_int counter\<bar> / 2 ^ 23"
    if "counter \<noteq> 0" "2 powi (- 126) \<le> \<bar>acc / real_of_int counter\<bar>"
      "\<bar>acc / real_of_int counter\<bar> < 2 powi 126"
  proof -
    from r that have "case a of Finite r \<Rightarrow> \<bar>r - acc / real_of_int counter\<bar> \<le> \<bar>acc / real_of_int counter\<bar> / 2 ^ 23
      | _ \<Rightarrow> False" by blast
    then show ?thesis by (cases a) simp_all
  qed
  show "\<exists>d r. a = Finite r \<and> nearest_value 53 (- 1022) 1023 (acc / real_of_int counter) d \<and>
           nearest_value 24 (- 126) 127 d r"
    if "counter \<noteq> 0" "\<bar>acc / real_of_int counter\<bar> < 2 powi 126"
  proof -
    from r that obtain d where "nearest_value 53 (- 1022) 1023 (acc / real_of_int counter) d"
      "case a of Finite r \<Rightarrow> nearest_value 24 (- 126) 127 d r | _ \<Rightarrow> False" by blast
    then show ?thesis by (cases a) auto
  qed
qed

lemma float_quotient_rounded:
  "rounded_quotient acc counter m k
     (if counter \<noteq> 0 then to_float (double_div acc (real_of_int counter)) else Finite 0)"
  unfolding rounded_quotient_def Let_def
proof (intro conjI impI)
  assume "counter = 0"
  then show "(if counter \<noteq> 0 then to_float (double_div acc (real_of_int counter)) else Finite 0) = Finite 0"
    by simp
next
  assume "counter \<noteq> 0 \<and> acc / real_of_int counter = real_of_int m * 2 powi k \<and> \<bar>m\<bar> < 2 ^ 24 \<and>
    - 149 \<le> k \<and> \<bar>acc / real_of_int counter\<bar> < 2 powi 128"
  then have c: "counter \<noteq> 0" and e: "acc / real_of_int counter = real_of_int m * 2 powi k"
    "\<bar>m\<bar> < 2 ^ 24" "- 149 \<le> k" "\<bar>acc / real_of_int counter\<bar> < 2 powi 128"
    by blast+
  from quotient_exact [OF e] c
  show "(if counter \<noteq> 0 then to_float (double_div acc (real_of_int counter)) else Finite 0)
      = Finite (acc / real_of_int counter)"
    by simp
next
  assume "counter \<noteq> 0 \<and> \<bar>acc / real_of_int counter\<bar> < 2 powi 126"
  then have c: "counter \<noteq> 0" and e: "\<bar>acc / real_of_int counter\<bar> < 2 powi 126" by blast+
  from quotient_nearest [OF e] obtain d r
    where "to_float (double_div acc (real_of_int counter)) = Finite r"
      "nearest_value 53 (- 1022) 1023 (acc / real_of_int counter) d"
      "nearest_value 24 (- 126) 127 d r"
    by blast
  with c show "\<exists>d. nearest_value 53 (- 1022) 1023 (acc / real_of_int counter) d \<and>
      (case (if counter \<noteq> 0 then to_float (double_div acc (real_of_int counter)) else Finite 0) of
         Finite r \<Rightarrow> nearest_value 24 (- 126) 127 d r | _ \<Rightarrow> False)"
    by (intro exI [of _ d]) simp
next
  assume "counter \<noteq> 0 \<and> 2 powi (- 126) \<le> \<bar>acc / real_of_int counter\<bar> \<and>
    \<bar>acc / real_of_int counter\<bar> < 2 powi 126"
  then have c: "counter \<noteq> 0" and e: "2 powi (- 126) \<le> \<bar>acc / real_of_int counter\<bar>"
    "\<bar>acc / real_of_int counter\<bar> < 2 powi 126"
    by blast+
  from quotient_near [OF e] obtain r
    where "to_float (double_div acc (real_of_int counter)) = Finite r"
      "\<bar>r - acc / real_of_int counter\<bar> \<le> \<bar>acc / real_of_int counter\<bar> / 2 ^ 23"
    by blast
  with c show "case (if counter \<noteq> 0 then to_float (double_div acc (real_of_int counter)) else Finite 0) of
      Finite r \<Rightarrow> \<bar>r - acc / real_of_int counter\<bar> \<le> \<bar>acc / real_of_int counter\<bar> / 2 ^ 23
    | _ \<Rightarrow> False"
    by simp
qed

section \<open>C9: the three averages\<close>

text \<open>
  Claim C9 as it is stated fails: an average function returns a \<^verbatim>\<open>float\<close>, and the sum
  divided by the counter need not be one. After \<open>three_jobs_run\<close> on one core under FCFS
  the wait accumulator holds 7 and its counter 3. \<open>scheduler_average_waiting_time\<close>
  returns 9786709 / 4194304, which is 2.3333332538604736328125, the \<^verbatim>\<open>float\<close> nearest to
  7 / 3, and not 7 / 3.
\<close>

theorem average_is_not_the_quotient:
  "scheduler_start_up 1 FCFS initial_globals = Inr (started 1 FCFS) \<and>
   valid_events three_jobs_run (started 1 FCFS) \<and>
   run three_jobs_run (started 1 FCFS) = Inr three_jobs_done \<and>
   totalWaitTime three_jobs_done = 7 \<and> numWaiting three_jobs_done = 3 \<and>
   scheduler_average_waiting_time three_jobs_done = Finite (9786709 / 4194304) \<and>
   (9786709 / 4194304 :: real) \<noteq> 7 / 3"
proof -
  note calls = scheduler_new_job_def scheduler_job_finished_def cpuUpdateTime_def visited_def
    overrun_def cpuCoresAvailable_def core_slot_def core_job_def cpuCoreAssignJob_def
    cpuCoreRemoveJob_def compare_def compare_jobs_def int32_def priqueue_offer_def
    priqueue_remove_def priqueue_poll_def poll_and_assign_def cpuUpdateTime_job_def Let_def
    initial_globals_def priqueue_init_def cpuInit_def
  have "scheduler_start_up 1 FCFS initial_globals = Inr (started 1 FCFS)"
    by (rule start_up_started)
  moreover have "valid_events three_jobs_run (started 1 FCFS)"
    by (simp add: three_jobs_run_def started_def calls)
  moreover have "run three_jobs_run (started 1 FCFS) = Inr three_jobs_done"
    by (simp add: three_jobs_run_def started_def three_jobs_done_def calls fun_eq_iff)
  moreover have "totalWaitTime three_jobs_done = 7 \<and> numWaiting three_jobs_done = 3"
    by (simp add: three_jobs_done_def)
  moreover have "scheduler_average_waiting_time three_jobs_done = Finite (9786709 / 4194304)"
    by (simp add: scheduler_average_waiting_time_def three_jobs_done_def double_div_def
        round_to_format_def binade_def round_even_def Let_def compute_bitlen)
  moreover have "(9786709 / 4194304 :: real) \<noteq> 7 / 3" by simp
  ultimately show ?thesis by blast
qed

text \<open>
  Claim C9, amended. Each of the three averages is zero when its counter is zero.
  Otherwise it is the sum divided by the counter, rounded to \<^verbatim>\<open>double\<close> and then to
  \<^verbatim>\<open>float\<close>: it is the quotient itself when the quotient is a value of type \<^verbatim>\<open>float\<close>;
  it is a \<^verbatim>\<open>float\<close> nearest to a \<^verbatim>\<open>double\<close> nearest to the quotient \<open>q\<close> when the magnitude
  of \<open>q\<close> is below \<open>2 ^ 126\<close>; and it is within \<open>\<bar>q\<bar> / 2 ^ 23\<close> of \<open>q\<close> when that magnitude
  is also at least \<open>2 ^ -126\<close> (\<open>rounded_quotient\<close> says this of a sum, a counter and the
  value returned). \<open>scheduler_start_up\<close> on the initial globals
  returns, for any number of cores and any scheme, a state in which the three averages
  are zero, and they are still zero after \<open>scheduler_clean_up\<close>.
\<close>

theorem averages_are_rounded_quotients:
  "rounded_quotient (totalWaitTime s) (numWaiting s) m k (scheduler_average_waiting_time s) \<and>
   rounded_quotient (totalTurnAroundTime s) (numTurnAround s) m k
     (scheduler_average_turnaround_time s) \<and>
   rounded_quotient (totalRespTime s) (numResponse s) m k (scheduler_average_response_time s) \<and>
   (\<exists>s0. scheduler_start_up cores scheme initial_globals = Inr s0 \<and>
      scheduler_average_waiting_time s0 = Finite 0 \<and>
      scheduler_average_turnaround_time s0 = Finite 0 \<and>
      scheduler_average_response_time s0 = Finite 0 \<and>
      scheduler_average_waiting_time (scheduler_clean_up s0) = Finite 0 \<and>
      scheduler_average_turnaround_time (scheduler_clean_up s0) = Finite 0 \<and>
      scheduler_average_response_time (scheduler_clean_up s0) = Finite 0)"
proof -
  have "scheduler_start_up cores scheme initial_globals = Inr (started cores scheme)"
    by (rule start_up_started)
  moreover have "numWaiting (started cores scheme) = 0" "numTurnAround (started cores scheme) = 0"
    "numResponse (started cores scheme) = 0"
    by (simp_all add: started_def initial_globals_def)
  ultimately have "\<exists>s0. scheduler_start_up cores scheme initial_globals = Inr s0 \<and>
      scheduler_average_waiting_time s0 = Finite 0 \<and>
      scheduler_average_turnaround_time s0 = Finite 0 \<and>
      scheduler_average_response_time s0 = Finite 0 \<and>
      scheduler_average_waiting_time (scheduler_clean_up s0) = Finite 0 \<and>
      scheduler_average_turnaround_time (scheduler_clean_up s0) = Finite 0 \<and>
      scheduler_average_response_time (scheduler_clean_up s0) = Finite 0"
    by (simp add: scheduler_average_waiting_time_def scheduler_average_turnaround_time_def
        scheduler_average_response_time_def)
  then show ?thesis
    unfolding scheduler_average_waiting_time_def scheduler_average_turnaround_time_def
      scheduler_average_response_time_def
    using float_quotient_rounded by blast
qed

theorem averages_are_rounded_quotients_witness:
  "numWaiting (started 4 FCFS) = 0 \<and> scheduler_average_waiting_time (started 4 FCFS) = Finite 0 \<and>
   numTurnAround three_jobs_done \<noteq> 0 \<and>
   totalTurnAroundTime three_jobs_done / real_of_int (numTurnAround three_jobs_done)
     = real_of_int 5 * 2 powi 0 \<and>
   scheduler_average_turnaround_time three_jobs_done = Finite 5 \<and>
   numWaiting three_jobs_done \<noteq> 0 \<and>
   totalWaitTime three_jobs_done / real_of_int (numWaiting three_jobs_done) = 7 / 3 \<and>
   (\<exists>r. scheduler_average_waiting_time three_jobs_done = Finite r \<and>
        \<bar>r - 7 / 3\<bar> \<le> \<bar>7 / 3\<bar> / 2 ^ 23) \<and>
   (\<exists>d r. scheduler_average_waiting_time three_jobs_done = Finite r \<and>
        nearest_value 53 (- 1022) 1023 (7 / 3) d \<and> nearest_value 24 (- 126) 127 d r) \<and>
   (\<exists>s0. scheduler_start_up 4 FCFS initial_globals = Inr s0 \<and>
      scheduler_average_waiting_time (scheduler_clean_up s0) = Finite 0 \<and>
      scheduler_average_turnaround_time (scheduler_clean_up s0) = Finite 0 \<and>
      scheduler_average_response_time (scheduler_clean_up s0) = Finite 0)"
proof -
  have z: "numWaiting (started 4 FCFS) = 0" by (simp add: started_def initial_globals_def)
  have t: "numTurnAround three_jobs_done \<noteq> 0"
    "totalTurnAroundTime three_jobs_done / real_of_int (numTurnAround three_jobs_done)
       = real_of_int 5 * 2 powi 0"
    by (simp_all add: three_jobs_done_def)
  have w: "numWaiting three_jobs_done \<noteq> 0"
    "totalWaitTime three_jobs_done / real_of_int (numWaiting three_jobs_done) = 7 / 3"
    by (simp_all add: three_jobs_done_def)
  note zero = averages_are_rounded_quotients [of "started 4 FCFS" 0 0 4 FCFS]
  from rounded_quotientD(1) [OF zero [THEN conjunct1] z]
  have a: "scheduler_average_waiting_time (started 4 FCFS) = Finite 0" .
  from zero have e: "\<exists>s0. scheduler_start_up 4 FCFS initial_globals = Inr s0 \<and>
      scheduler_average_waiting_time (scheduler_clean_up s0) = Finite 0 \<and>
      scheduler_average_turnaround_time (scheduler_clean_up s0) = Finite 0 \<and>
      scheduler_average_response_time (scheduler_clean_up s0) = Finite 0"
    by blast
  note last = averages_are_rounded_quotients [of three_jobs_done 5 0 4 FCFS]
  have q: "totalTurnAroundTime three_jobs_done / real_of_int (numTurnAround three_jobs_done) = 5"
    by (simp add: three_jobs_done_def)
  have "scheduler_average_turnaround_time three_jobs_done
      = Finite (totalTurnAroundTime three_jobs_done / real_of_int (numTurnAround three_jobs_done))"
    by (rule rounded_quotientD(2) [OF last [THEN conjunct2, THEN conjunct1] t]) (simp_all add: q)
  then have b: "scheduler_average_turnaround_time three_jobs_done = Finite 5" by (simp only: q)
  have "\<exists>r. scheduler_average_waiting_time three_jobs_done = Finite r \<and>
        \<bar>r - totalWaitTime three_jobs_done / real_of_int (numWaiting three_jobs_done)\<bar>
        \<le> \<bar>totalWaitTime three_jobs_done / real_of_int (numWaiting three_jobs_done)\<bar> / 2 ^ 23"
    by (rule rounded_quotientD(3) [OF last [THEN conjunct1] w(1)])
      (simp_all add: w(2) power_int_minus_divide)
  then have c: "\<exists>r. scheduler_average_waiting_time three_jobs_done = Finite r \<and>
        \<bar>r - 7 / 3\<bar> \<le> \<bar>7 / 3\<bar> / 2 ^ 23"
    by (simp only: w(2))
  have "\<exists>d r. scheduler_average_waiting_time three_jobs_done = Finite r \<and>
        nearest_value 53 (- 1022) 1023
          (totalWaitTime three_jobs_done / real_of_int (numWaiting three_jobs_done)) d \<and>
        nearest_value 24 (- 126) 127 d r"
    by (rule rounded_quotientD(4) [OF last [THEN conjunct1] w(1)]) (simp add: w(2))
  then have n: "\<exists>d r. scheduler_average_waiting_time three_jobs_done = Finite r \<and>
        nearest_value 53 (- 1022) 1023 (7 / 3) d \<and> nearest_value 24 (- 126) 127 d r"
    by (simp only: w(2))
  from z a t b w c n e show ?thesis by blast
qed

section \<open>C5: when the first dispatch is recorded\<close>

text \<open>
  Claim C5. Between two calls (\<open>sched_inv\<close>), let the time advance to \<open>time\<close>, not before
  the clock. \<open>cpuUpdateTime\<close> returns, and for every job \<open>j\<close> in a core: if \<open>initTime\<close>
  was unset and \<open>lastTime j < time\<close>, then \<open>initTime\<close> becomes \<open>lastTime j\<close>, which is not
  the value "unset"; otherwise \<open>initTime\<close> keeps its value. So a set \<open>initTime\<close> is never
  assigned again, and a job dispatched at this very time (\<open>lastTime j = time\<close>) is not
  counted. Jobs outside the cores are not touched. The response accumulator grows by
  the sum of \<open>lastTime j - arrivalTime j\<close> over exactly the jobs whose \<open>initTime\<close> was
  set in this call, and the response counter grows by their number.
\<close>

theorem first_dispatch_set_at_time_advance:
  assumes "sched_inv s" and "currentTime s \<le> time"
  shows "\<exists>s'. cpuUpdateTime time s = Inr s' \<and>
    (\<forall>p j. p \<in> set (somes (jobs (cpu s))) \<and> mem s p = Some j \<longrightarrow>
       (\<exists>j'. mem s' p = Some j' \<and>
          (if initTime j = - 1 \<and> lastTime j < time
           then initTime j' = lastTime j \<and> initTime j' \<noteq> - 1
           else initTime j' = initTime j))) \<and>
    (\<forall>p. p \<notin> set (somes (jobs (cpu s))) \<longrightarrow> mem s' p = mem s p) \<and>
    (let credited = filter (\<lambda>p. case mem s p of None \<Rightarrow> False
                                 | Some j \<Rightarrow> initTime j = - 1 \<and> lastTime j < time)
                      (somes (jobs (cpu s)))
     in totalRespTime s' = totalRespTime s
          + real_of_int (\<Sum>p\<leftarrow>credited. case mem s p of None \<Rightarrow> 0 | Some j \<Rightarrow> lastTime j - arrivalTime j)
        \<and> numResponse s' = numResponse s + int (length credited))"
proof -
  note i = sched_invD [OF assms(1)]
  have run: "cpuUpdateTime time s = Inr (advanced time s)" using i(1) by (rule cpuUpdateTime_closed)
  have jobs: "\<exists>j'. mem (advanced time s) p = Some j' \<and>
          (if initTime j = - 1 \<and> lastTime j < time
           then initTime j' = lastTime j \<and> initTime j' \<noteq> - 1
           else initTime j' = initTime j)"
    if "p \<in> set (somes (jobs (cpu s))) \<and> mem s p = Some j" for p j
  proof -
    from that assms(1) have lt: "lastTime j = currentTime s" using running_lastTime by fastforce
    from i(2) have "0 \<le> currentTime s" by (rule inv_time_now)
    with lt assms(2) have "lastTime j \<noteq> - 1" "lastTime j \<le> time" by simp_all
    moreover from that have "mem (advanced time s) p = Some (cpuUpdateTime_job time j)"
      by (simp add: advanced_mem_core)
    ultimately show ?thesis by (auto simp: cpuUpdateTime_job_def Let_def)
  qed
  have others: "mem (advanced time s) p = mem s p" if "p \<notin> set (somes (jobs (cpu s)))" for p
    using that by (simp add: advanced_mem_other)
  have resp: "responders time (somes (jobs (cpu s))) (mem s) =
     filter (\<lambda>p. case mem s p of None \<Rightarrow> False | Some j \<Rightarrow> initTime j = - 1 \<and> lastTime j < time)
       (somes (jobs (cpu s)))"
    using assms by (rule responders_less)
  have totals: "totalRespTime (advanced time s) = totalRespTime s
          + real_of_int (\<Sum>p\<leftarrow>responders time (somes (jobs (cpu s))) (mem s).
               case mem s p of None \<Rightarrow> 0 | Some j \<Rightarrow> lastTime j - arrivalTime j)"
    "numResponse (advanced time s) = numResponse s + int (length (responders time (somes (jobs (cpu s))) (mem s)))"
    by (simp_all add: advanced_def response_of_def [abs_def])
  show ?thesis
    unfolding Let_def resp [symmetric]
    using run jobs others totals by blast
qed

theorem first_dispatch_set_at_time_advance_witness:
  "sched_inv one_running \<and> currentTime one_running \<le> 3 \<and>
   (\<exists>s' j'. cpuUpdateTime 3 one_running = Inr s' \<and> mem s' 0 = Some j' \<and> initTime j' = 0 \<and>
      totalRespTime s' = 0 \<and> numResponse s' = 1)"
proof -
  have h1: "sched_inv one_running" by (rule one_running_inv)
  have h2: "currentTime one_running \<le> 3" by (simp add: one_running_def initial_globals_def)
  from first_dispatch_set_at_time_advance [OF h1 h2]
  obtain s' where run: "cpuUpdateTime 3 one_running = Inr s'"
    and jobs: "\<forall>p j. p \<in> set (somes (jobs (cpu one_running))) \<and> mem one_running p = Some j \<longrightarrow>
       (\<exists>j'. mem s' p = Some j' \<and>
          (if initTime j = - 1 \<and> lastTime j < 3
           then initTime j' = lastTime j \<and> initTime j' \<noteq> - 1
           else initTime j' = initTime j))"
    and totals: "(let credited = filter (\<lambda>p. case mem one_running p of None \<Rightarrow> False
                                 | Some j \<Rightarrow> initTime j = - 1 \<and> lastTime j < 3)
                      (somes (jobs (cpu one_running)))
     in totalRespTime s' = totalRespTime one_running
          + real_of_int (\<Sum>p\<leftarrow>credited. case mem one_running p of None \<Rightarrow> 0 | Some j \<Rightarrow> lastTime j - arrivalTime j)
        \<and> numResponse s' = numResponse one_running + int (length credited))"
    by blast
  from jobs [rule_format, of 0 "\<lparr>jobNumber = 1, arrivalTime = 0, runTime = 5, remainingTime = 5,
                                 priority = 0, initTime = - 1, lastTime = 0\<rparr>"]
  obtain j' where "mem s' 0 = Some j'" "initTime j' = 0"
    by (auto simp: one_running_def initial_globals_def)
  moreover from totals have "totalRespTime s' = 0" "numResponse s' = 1"
    by (simp_all add: one_running_def initial_globals_def)
  ultimately show ?thesis using h1 h2 run by blast
qed


section \<open>C7: quantum expiry under round robin\<close>

text \<open>
  Claim C7. Under RR, between two calls, let a quantum expire on a core that holds the
  job \<open>p\<close>, at a time not before the clock. If the ready queue is empty, the call
  returns the number of that same job, the cores hold what they held, and the queue is
  empty again: the job was put into the queue and polled back. If the queue is
  \<open>h # rest\<close>, the call returns the number of \<open>h\<close>, the core holds \<open>h\<close>, and the queue is
  \<open>rest @ [p]\<close>: the displaced job stands behind every job that was waiting.
\<close>

theorem quantum_expired_round_robin:
  assumes inv: "sched_inv s" and rr: "curScheme s = RR"
    and valid: "valid_event s (QuantumExpired core_id time)"
  shows "\<exists>p j s'. 0 \<le> core_id \<and> jobs (cpu s) ! nat core_id = Some p \<and> mem s p = Some j \<and>
     (case head (mQueue s) of
        [] \<Rightarrow>
          scheduler_quantum_expired core_id time s = Inr (s', jobNumber j) \<and>
          jobs (cpu s') = jobs (cpu s) \<and> head (mQueue s') = []
      | h # rest \<Rightarrow>
          (\<exists>jh. mem s h = Some jh \<and>
             scheduler_quantum_expired core_id time s = Inr (s', jobNumber jh) \<and>
             jobs (cpu s') = (jobs (cpu s))[nat core_id := Some h] \<and>
             head (mQueue s') = rest @ [p]))"
proof -
  note i = sched_invD [OF inv]
  from valid obtain j where cj: "core_job s core_id = Inr j"
    by (auto split: sum.splits)
  then obtain p where c0: "0 \<le> core_id" and c: "nat core_id < length (jobs (cpu s))"
    and p: "jobs (cpu s) ! nat core_id = Some p" and j: "mem s p = Some j"
    by (rule valid_core_event)
  let ?c = "nat core_id"
  from c0 have cc: "core_id = int ?c" by simp
  let ?s1 = "advanced time s"
  let ?j1 = "cpuUpdateTime_job time j"
  have run: "cpuUpdateTime time s = Inr ?s1" using i(1) by (rule cpuUpdateTime_closed)
  have i1: "inv_struct_with [] ?s1" using i(1) by (rule inv_struct_with_advanced)
  from c p have pc: "p \<in> set (somes (jobs (cpu s)))" by (auto simp: set_somes dest: nth_mem)
  with j have j1: "mem ?s1 p = Some ?j1" by (simp add: advanced_mem_core)
  from c p j1 have cj1: "core_job ?s1 core_id = Inr ?j1"
    using core_job_Some [of ?c ?s1 p ?j1] cc by simp
  let ?s2 = "?s1\<lparr>mem := (mem ?s1)(p \<mapsto> ?j1\<lparr>lastTime := - 1\<rparr>),
              cpu := (cpu ?s1)\<lparr>jobs := (jobs (cpu ?s1))[?c := None]\<rparr>,
              mQueue := (mQueue ?s1)\<lparr>head := head (mQueue ?s1) @ [p], size_q := size_q (mQueue ?s1) + 1\<rparr>\<rparr>"
  have "cpuCoreRemoveJob (int ?c) (jobNumber ?j1) ?s1 = Inr (?s2, p)"
    using i1 c p j1 rr by (intro cpuCoreRemoveJob_RR) simp_all
  with cc have rem: "cpuCoreRemoveJob core_id (jobNumber j) ?s1 = Inr (?s2, p)" by simp
  have qe: "scheduler_quantum_expired core_id time s = poll_and_assign core_id ?s2"
    by (simp add: scheduler_quantum_expired_def run cj1 rem)
  have slot: "?c < length (jobs (cpu ?s2))" "jobs (cpu ?s2) ! ?c = None" using c by simp_all
  show ?thesis
  proof (cases "head (mQueue s)")
    case Nil
    then have hd: "head (mQueue ?s2) = p # []" by simp
    have m: "mem ?s2 p = Some (?j1\<lparr>lastTime := - 1\<rparr>)" by simp
    from poll_and_assign_job [OF hd slot m] cc
    have "poll_and_assign core_id ?s2 =
       Inr (?s2\<lparr>mQueue := (mQueue ?s2)\<lparr>head := [], size_q := size_q (mQueue ?s2) - 1\<rparr>,
            cpu := (cpu ?s2)\<lparr>jobs := (jobs (cpu ?s2))[?c := Some p]\<rparr>,
            mem := (mem ?s2)(p \<mapsto> ?j1\<lparr>lastTime := - 1, lastTime := currentTime ?s2\<rparr>)\<rparr>, jobNumber ?j1)"
      by simp
    moreover have "(jobs (cpu s))[?c := Some p] = jobs (cpu s)"
      using list_update_id [of "jobs (cpu s)" ?c] p by simp
    ultimately show ?thesis using qe Nil c0 p j
      by (intro exI [of _ p] exI [of _ j]) simp
  next
    case (Cons h rest)
    then have hd: "head (mQueue ?s2) = h # (rest @ [p])" by simp
    from Cons queued_allocated [OF i(1)] obtain jh where jh: "mem s h = Some jh" by auto
    from inv_struct_withD(4) [OF i(1)] Cons pc have hp: "h \<noteq> p" "h \<notin> set (somes (jobs (cpu s)))"
      by (auto simp: holders_def)
    with jh have m: "mem ?s2 h = Some jh" by (simp add: advanced_mem_other)
    from poll_and_assign_job [OF hd slot m] cc
    have "poll_and_assign core_id ?s2 =
       Inr (?s2\<lparr>mQueue := (mQueue ?s2)\<lparr>head := rest @ [p], size_q := size_q (mQueue ?s2) - 1\<rparr>,
            cpu := (cpu ?s2)\<lparr>jobs := (jobs (cpu ?s2))[?c := Some h]\<rparr>,
            mem := (mem ?s2)(h \<mapsto> jh\<lparr>lastTime := currentTime ?s2\<rparr>)\<rparr>, jobNumber jh)"
      by simp
    with qe Cons c0 p j jh show ?thesis
      by (intro exI [of _ p] exI [of _ j]) simp
  qed
qed

theorem quantum_expired_round_robin_witness:
  "sched_inv one_running_one_waiting \<and> curScheme one_running_one_waiting = RR \<and>
   valid_event one_running_one_waiting (QuantumExpired 0 2) \<and>
   (\<exists>s'. scheduler_quantum_expired 0 2 one_running_one_waiting = Inr (s', 2) \<and>
      jobs (cpu s') = [Some 1] \<and> head (mQueue s') = [0])"
proof -
  have h1: "sched_inv one_running_one_waiting" by (rule one_running_one_waiting_inv)
  have h2: "curScheme one_running_one_waiting = RR"
    by (simp add: one_running_one_waiting_def)
  have h3: "valid_event one_running_one_waiting (QuantumExpired 0 2)"
    by (simp add: one_running_one_waiting_def initial_globals_def core_job_def core_slot_def)
  from quantum_expired_round_robin [OF h1 h2 h3]
  obtain p j s' jh where "jobs (cpu one_running_one_waiting) ! nat 0 = Some p"
    and "mem one_running_one_waiting 1 = Some jh"
    and "scheduler_quantum_expired 0 2 one_running_one_waiting = Inr (s', jobNumber jh)"
    and "jobs (cpu s') = (jobs (cpu one_running_one_waiting))[nat 0 := Some 1]"
    and "head (mQueue s') = [] @ [p]"
    by (auto simp: one_running_one_waiting_def)
  then have "scheduler_quantum_expired 0 2 one_running_one_waiting = Inr (s', 2)"
    "jobs (cpu s') = [Some 1]" "head (mQueue s') = [0]"
    by (auto simp: one_running_one_waiting_def)
  with h1 h2 h3 show ?thesis by blast
qed


section \<open>C1: the core that an arriving job preempts\<close>

text \<open>
  Claim C1 as it is stated, for every call, fails where a subtraction of \<^verbatim>\<open>compare\<close>
  overflows. Start two cores under PSJF and let the two jobs of \<open>overdue_run\<close>
  arrive; the state is \<open>two_overdue\<close>. Job 3 (100 units of service) arrives at
  2147483646. After the time-advance the occupant of core 0 has the remaining time
  -2147483645 and the occupant of core 1 has 354. Both compare strictly greater than
  the candidate, and the occupant of core 1 has the larger key. The difference
  100 - (-2147483645) wraps around to -2147483551, which is below 100 - 354, and the
  call preempts core 0: it returns 0, and core 0 holds the new job (address 2).
\<close>

theorem preemption_victim_overflow:
  "scheduler_start_up 2 PSJF initial_globals = Inr (started 2 PSJF) \<and>
   valid_events (overdue_run @ [NewJob 3 2147483646 100 0]) (started 2 PSJF) \<and>
   run overdue_run (started 2 PSJF) = Inr two_overdue \<and>
   curScheme two_overdue = PSJF \<and> None \<notin> set (jobs (cpu two_overdue)) \<and>
   core_job (admitted 3 2147483646 100 0 two_overdue) 0 =
     Inr \<lparr>jobNumber = 1, arrivalTime = 0, runTime = 1, remainingTime = - 2147483645,
          priority = 0, initTime = 0, lastTime = 2147483646\<rparr> \<and>
   core_job (admitted 3 2147483646 100 0 two_overdue) 1 =
     Inr \<lparr>jobNumber = 2, arrivalTime = 2147483000, runTime = 1000, remainingTime = 354,
          priority = 0, initTime = 2147483000, lastTime = 2147483646\<rparr> \<and>
   0 < compare_jobs PSJF
         \<lparr>jobNumber = 1, arrivalTime = 0, runTime = 1, remainingTime = - 2147483645,
          priority = 0, initTime = 0, lastTime = 2147483646\<rparr>
         (new_job_record 3 2147483646 100 0) \<and>
   0 < compare_jobs PSJF
         \<lparr>jobNumber = 2, arrivalTime = 2147483000, runTime = 1000, remainingTime = 354,
          priority = 0, initTime = 2147483000, lastTime = 2147483646\<rparr>
         (new_job_record 3 2147483646 100 0) \<and>
   compare_jobs PSJF (new_job_record 3 2147483646 100 0)
         \<lparr>jobNumber = 1, arrivalTime = 0, runTime = 1, remainingTime = - 2147483645,
          priority = 0, initTime = 0, lastTime = 2147483646\<rparr> = - 2147483551 \<and>
   compare_jobs PSJF (new_job_record 3 2147483646 100 0)
         \<lparr>jobNumber = 2, arrivalTime = 2147483000, runTime = 1000, remainingTime = 354,
          priority = 0, initTime = 2147483000, lastTime = 2147483646\<rparr> = - 254 \<and>
   map_sum id snd (scheduler_new_job 3 2147483646 100 0 two_overdue) = Inr 0 \<and>
   map_sum id (jobs \<circ> cpu \<circ> fst) (scheduler_new_job 3 2147483646 100 0 two_overdue)
     = Inr [Some 2, Some 1]"
proof -
  note calls = scheduler_new_job_def cpuUpdateTime_def visited_def overrun_def
    cpuCoresAvailable_def core_slot_def core_job_def cpuCoreAssignJob_def cpuCoreRemoveJob_def
    cpuCorePreempt_def compare_def compare_jobs_def int32_def priqueue_offer_def
    cpuUpdateTime_job_def Let_def initial_globals_def priqueue_init_def cpuInit_def
  have "scheduler_start_up 2 PSJF initial_globals = Inr (started 2 PSJF)"
    by (rule start_up_started)
  moreover have "valid_events (overdue_run @ [NewJob 3 2147483646 100 0]) (started 2 PSJF)"
    by (simp add: overdue_run_def started_def calls eval_nat_numeral)
  moreover have "run overdue_run (started 2 PSJF) = Inr two_overdue"
    by (simp add: overdue_run_def two_overdue_def started_def calls eval_nat_numeral)
  moreover have "curScheme two_overdue = PSJF \<and> None \<notin> set (jobs (cpu two_overdue))"
    by (simp add: two_overdue_def)
  moreover have "core_job (admitted 3 2147483646 100 0 two_overdue) 0 =
     Inr \<lparr>jobNumber = 1, arrivalTime = 0, runTime = 1, remainingTime = - 2147483645,
          priority = 0, initTime = 0, lastTime = 2147483646\<rparr>"
   "core_job (admitted 3 2147483646 100 0 two_overdue) 1 =
     Inr \<lparr>jobNumber = 2, arrivalTime = 2147483000, runTime = 1000, remainingTime = 354,
          priority = 0, initTime = 2147483000, lastTime = 2147483646\<rparr>"
    by (simp_all add: core_job_def core_slot_def admitted_def advanced_def advanced_mem_def
        two_overdue_def initial_globals_def cpuUpdateTime_job_def Let_def)
  moreover have "0 < compare_jobs PSJF
         \<lparr>jobNumber = 1, arrivalTime = 0, runTime = 1, remainingTime = - 2147483645,
          priority = 0, initTime = 0, lastTime = 2147483646\<rparr>
         (new_job_record 3 2147483646 100 0)"
   "0 < compare_jobs PSJF
         \<lparr>jobNumber = 2, arrivalTime = 2147483000, runTime = 1000, remainingTime = 354,
          priority = 0, initTime = 2147483000, lastTime = 2147483646\<rparr>
         (new_job_record 3 2147483646 100 0)"
   "compare_jobs PSJF (new_job_record 3 2147483646 100 0)
         \<lparr>jobNumber = 1, arrivalTime = 0, runTime = 1, remainingTime = - 2147483645,
          priority = 0, initTime = 0, lastTime = 2147483646\<rparr> = - 2147483551"
   "compare_jobs PSJF (new_job_record 3 2147483646 100 0)
         \<lparr>jobNumber = 2, arrivalTime = 2147483000, runTime = 1000, remainingTime = 354,
          priority = 0, initTime = 2147483000, lastTime = 2147483646\<rparr> = - 254"
    by (simp_all add: compare_jobs_def int32_def new_job_record_def)
  moreover have "map_sum id snd (scheduler_new_job 3 2147483646 100 0 two_overdue) = Inr 0"
    "map_sum id (jobs \<circ> cpu \<circ> fst) (scheduler_new_job 3 2147483646 100 0 two_overdue)
       = Inr [Some 2, Some 1]"
    by (simp_all add: two_overdue_def calls)
  ultimately show ?thesis by blast
qed

text \<open>
  Claim C1, amended. Between two calls, under PSJF or PPRI with every core busy, let a
  job arrive at a time not before the clock, and let no subtraction of \<^verbatim>\<open>compare\<close>
  overflow on the candidate and an occupant (as is the case when the fields of the jobs
  are below \<open>2 ^ 30\<close> in magnitude, lemma \<open>differences_fit_bounded\<close>).
  \<open>scheduler_new_job\<close> returns. The
  occupants are compared with the candidate as they are after the time-advance, in the
  state \<open>admitted ...\<close>; the key is the remaining time under PSJF and the priority
  under PPRI. If no occupant compares strictly greater than the candidate, the call
  returns \<open>-1\<close>, the cores hold what they held and the candidate has been put into the
  queue. If some occupant compares strictly greater, the call returns a core \<open>r\<close> whose
  occupant \<open>v\<close> compares strictly greater than the candidate; no occupant has a larger
  key than \<open>v\<close>, and none with the same key has arrived later; the candidate now holds
  core \<open>r\<close> and \<open>v\<close> has been put into the queue.
\<close>

theorem preemption_victim:
  assumes inv: "sched_inv s" and t: "currentTime s \<le> time"
    and sch: "curScheme s = PSJF \<or> curScheme s = PPRI"
    and busy: "None \<notin> set (jobs (cpu s))"
    and fit: "\<forall>k j. core_job (admitted job_number time running_time priority' s) k = Inr j \<longrightarrow>
                differences_fit (new_job_record job_number time running_time priority') j"
  shows "\<exists>s' r. scheduler_new_job job_number time running_time priority' s = Inr (s', r) \<and>
    (let s2 = admitted job_number time running_time priority' s;
         cand = new_job_record job_number time running_time priority';
         key = (\<lambda>j. if curScheme s = PSJF then remainingTime j else priority j)
     in
       ((\<forall>k j. core_job s2 k = Inr j \<longrightarrow> compare_jobs (curScheme s) j cand \<le> 0) \<longrightarrow>
          r = - 1 \<and> jobs (cpu s') = jobs (cpu s) \<and>
          (\<exists>pre post. head (mQueue s) = pre @ post \<and> head (mQueue s') = pre @ brk s # post)) \<and>
       ((\<exists>k j. core_job s2 k = Inr j \<and> 0 < compare_jobs (curScheme s) j cand) \<longrightarrow>
          (\<exists>v pv. core_job s2 r = Inr v \<and> 0 \<le> r \<and> jobs (cpu s) ! nat r = Some pv \<and>
             0 < compare_jobs (curScheme s) v cand \<and>
             (\<forall>k j. core_job s2 k = Inr j \<longrightarrow>
                key j \<le> key v \<and> (key j = key v \<longrightarrow> arrivalTime j \<le> arrivalTime v)) \<and>
             jobs (cpu s') = (jobs (cpu s))[nat r := Some (brk s)] \<and>
             (\<exists>pre post. head (mQueue s) = pre @ post \<and> head (mQueue s') = pre @ pv # post))))"
proof -
  let ?s2 = "admitted job_number time running_time priority' s"
  let ?cand = "new_job_record job_number time running_time priority'"
  let ?key = "\<lambda>j. if curScheme s = PSJF then remainingTime j else priority j"
  let ?cmp = "compare_jobs (curScheme s)"
  note i2 = admitted_inv [OF inv t, of job_number running_time priority']
  have arr: "arrivalTime j \<le> arrivalTime ?cand" if "core_job ?s2 k = Inr j" for k j
    using occupant_arrived [OF i2(2) that] by (simp add: new_job_record_def)
  have fits: "differences_fit ?cand j" if "core_job ?s2 k = Inr j" for k j
    using fit that by blast
  have flip: "?cmp j ?cand = - ?cmp ?cand j" if "core_job ?s2 k = Inr j" for k j
    using compare_jobs_flip [OF differences_fit_sym [OF fits [OF that]]] .
  have key: "?cmp ?cand j =
     (if ?key ?cand = ?key j then arrivalTime ?cand - arrivalTime j else ?key ?cand - ?key j)"
    if "core_job ?s2 k = Inr j" for k j
    using compare_jobs_key [OF sch fits [OF that]] by simp
  from new_job_preemptive [OF inv t busy sch, of job_number running_time priority']
  obtain ci cc where scan: "scan_ok ?s2 ?cand (length (jobs (cpu s))) cc ci"
    and none: "ci = - 1 \<Longrightarrow>
        \<exists>pre post s'. head (mQueue s) = pre @ post \<and>
           scheduler_new_job job_number time running_time priority' s = Inr (s', - 1) \<and> sched_inv s' \<and>
           jobs (cpu s') = jobs (cpu s) \<and> head (mQueue s') = pre @ brk s # post"
    and some: "ci \<noteq> - 1 \<Longrightarrow>
        \<exists>pv pre post s'. 0 \<le> ci \<and> nat ci < length (jobs (cpu s)) \<and>
           jobs (cpu s) ! nat ci = Some pv \<and> head (mQueue s) = pre @ post \<and>
           scheduler_new_job job_number time running_time priority' s = Inr (s', ci) \<and> sched_inv s' \<and>
           jobs (cpu s') = (jobs (cpu s))[nat ci := Some (brk s)] \<and>
           head (mQueue s') = pre @ pv # post"
    by blast
  have idx: "\<exists>n. k = int n \<and> n < length (jobs (cpu s))" if "core_job ?s2 k = Inr j" for k j
    using core_job_InrD [OF that] by (intro exI [of _ "nat k"]) simp
  show ?thesis
  proof (cases "ci = - 1")
    case True
    with scan have all: "0 \<le> ?cmp ?cand j" if "core_job ?s2 k = Inr j" for k j
      using idx [OF that] that by (auto simp: scan_ok_def)
    have no: "\<not> (\<exists>k j. core_job ?s2 k = Inr j \<and> 0 < ?cmp j ?cand)"
    proof
      assume "\<exists>k j. core_job ?s2 k = Inr j \<and> 0 < ?cmp j ?cand"
      then obtain k j where "core_job ?s2 k = Inr j" "0 < ?cmp j ?cand" by blast
      with all [of k j] flip [of k j] show False by simp
    qed
    from none [OF True] no show ?thesis unfolding Let_def by blast
  next
    case False
    with scan obtain v where ci: "0 \<le> ci" "cc < 0"
      and v: "core_job ?s2 ci = Inr v" "?cmp ?cand v = cc"
      and best: "\<And>n j. n < length (jobs (cpu s)) \<Longrightarrow> core_job ?s2 (int n) = Inr j \<Longrightarrow>
            cc \<le> ?cmp ?cand j \<and> (?cmp ?cand j = cc \<longrightarrow> arrivalTime j \<le> arrivalTime v)"
      by (auto simp: scan_ok_def)
    from v ci(2) flip [OF v(1)] have worse: "0 < ?cmp v ?cand" by simp
    from v(2) ci(2) key [OF v(1)] arr [OF v(1)]
    have kv: "?key ?cand \<noteq> ?key v" "cc = ?key ?cand - ?key v"
      by (auto split: if_splits)
    have order: "?key j \<le> ?key v \<and> (?key j = ?key v \<longrightarrow> arrivalTime j \<le> arrivalTime v)"
      if "core_job ?s2 k = Inr j" for k j
    proof -
      from idx [OF that] obtain n where n: "k = int n" "n < length (jobs (cpu s))" by blast
      with that best [of n j]
      have b: "cc \<le> ?cmp ?cand j" "?cmp ?cand j = cc \<longrightarrow> arrivalTime j \<le> arrivalTime v"
        by simp_all
      show ?thesis
      proof (cases "?key ?cand = ?key j")
        case True
        with kv ci(2) show ?thesis by auto
      next
        case False
        with key [OF that] have "?cmp ?cand j = ?key ?cand - ?key j" by simp
        with b kv(2) show ?thesis by auto
      qed
    qed
    have yes: "\<not> (\<forall>k j. core_job ?s2 k = Inr j \<longrightarrow> ?cmp j ?cand \<le> 0)"
      using v(1) worse by (metis not_less)
    from some [OF False] obtain pv pre post s'
      where r: "jobs (cpu s) ! nat ci = Some pv" "head (mQueue s) = pre @ post"
        "scheduler_new_job job_number time running_time priority' s = Inr (s', ci)"
        "jobs (cpu s') = (jobs (cpu s))[nat ci := Some (brk s)]"
        "head (mQueue s') = pre @ pv # post"
      by blast
    have "\<exists>v pv. core_job ?s2 ci = Inr v \<and> 0 \<le> ci \<and> jobs (cpu s) ! nat ci = Some pv \<and>
             0 < ?cmp v ?cand \<and>
             (\<forall>k j. core_job ?s2 k = Inr j \<longrightarrow>
                ?key j \<le> ?key v \<and> (?key j = ?key v \<longrightarrow> arrivalTime j \<le> arrivalTime v)) \<and>
             jobs (cpu s') = (jobs (cpu s))[nat ci := Some (brk s)] \<and>
             (\<exists>pre post. head (mQueue s) = pre @ post \<and> head (mQueue s') = pre @ pv # post)"
      using v(1) ci(1) r worse order by blast
    with r(3) yes show ?thesis unfolding Let_def by blast
  qed
qed

theorem preemption_victim_witness:
  "sched_inv two_running \<and> currentTime two_running \<le> 1 \<and>
   (curScheme two_running = PSJF \<or> curScheme two_running = PPRI) \<and>
   None \<notin> set (jobs (cpu two_running)) \<and>
   differences_fit (new_job_record 3 1 4 2)
     \<lparr>jobNumber = 1, arrivalTime = 0, runTime = 10, remainingTime = 9,
      priority = 3, initTime = 0, lastTime = 1\<rparr> \<and>
   differences_fit (new_job_record 3 1 4 2)
     \<lparr>jobNumber = 2, arrivalTime = 0, runTime = 10, remainingTime = 9,
      priority = 1, initTime = 0, lastTime = 1\<rparr> \<and>
   (\<exists>s'. scheduler_new_job 3 1 4 2 two_running = Inr (s', 0) \<and>
      jobs (cpu s') = [Some 2, Some 1] \<and> head (mQueue s') = [0])"
proof -
  let ?s2 = "admitted 3 1 4 2 two_running" and ?cand = "new_job_record 3 1 4 2"
  let ?j1 = "\<lparr>jobNumber = 1, arrivalTime = 0, runTime = 10, remainingTime = 9,
          priority = 3, initTime = 0, lastTime = 1\<rparr>"
  let ?j2 = "\<lparr>jobNumber = 2, arrivalTime = 0, runTime = 10, remainingTime = 9,
          priority = 1, initTime = 0, lastTime = 1\<rparr>"
  have h1: "sched_inv two_running" by (rule two_running_inv)
  have h2: "currentTime two_running \<le> 1" by (simp add: two_running_def initial_globals_def)
  have h3: "curScheme two_running = PSJF \<or> curScheme two_running = PPRI"
    by (simp add: two_running_def)
  have h4: "None \<notin> set (jobs (cpu two_running))" by (simp add: two_running_def)
  have sch: "curScheme two_running = PPRI" by (simp add: two_running_def)
  have worse: "0 < compare_jobs PPRI ?j1 ?cand"
    by (simp add: compare_jobs_def int32_def new_job_record_def)
  have f1: "differences_fit ?cand ?j1" and f2: "differences_fit ?cand ?j2"
    by (simp_all add: differences_fit_def fits_def new_job_record_def)
  have h5: "\<forall>k j. core_job ?s2 k = Inr j \<longrightarrow> differences_fit ?cand j"
  proof (intro allI impI)
    fix k j assume cj: "core_job ?s2 k = Inr j"
    from core_job_InrD [OF cj] have "0 \<le> k" "nat k < 2" by (simp_all add: two_running_def)
    then have "k = 0 \<or> k = 1" by auto
    with cj two_running_occupants f1 f2 show "differences_fit ?cand j" by auto
  qed
  from preemption_victim [OF h1 h2 h3 h4 h5]
  obtain s' r where res: "scheduler_new_job 3 1 4 2 two_running = Inr (s', r)"
    and pre0: "(\<exists>k j. core_job ?s2 k = Inr j \<and> 0 < compare_jobs (curScheme two_running) j ?cand) \<longrightarrow>
          (\<exists>v pv. core_job ?s2 r = Inr v \<and> 0 \<le> r \<and> jobs (cpu two_running) ! nat r = Some pv \<and>
             0 < compare_jobs (curScheme two_running) v ?cand \<and>
             (\<forall>k j. core_job ?s2 k = Inr j \<longrightarrow>
                (if curScheme two_running = PSJF then remainingTime j else priority j)
                  \<le> (if curScheme two_running = PSJF then remainingTime v else priority v) \<and>
                ((if curScheme two_running = PSJF then remainingTime j else priority j)
                  = (if curScheme two_running = PSJF then remainingTime v else priority v)
                 \<longrightarrow> arrivalTime j \<le> arrivalTime v)) \<and>
             jobs (cpu s') = (jobs (cpu two_running))[nat r := Some (brk two_running)] \<and>
             (\<exists>pre post. head (mQueue two_running) = pre @ post \<and> head (mQueue s') = pre @ pv # post))"
    unfolding Let_def by blast
  from pre0 have pre: "(\<exists>k j. core_job ?s2 k = Inr j \<and> 0 < compare_jobs PPRI j ?cand) \<longrightarrow>
          (\<exists>v pv. core_job ?s2 r = Inr v \<and> 0 \<le> r \<and> jobs (cpu two_running) ! nat r = Some pv \<and>
             0 < compare_jobs PPRI v ?cand \<and>
             (\<forall>k j. core_job ?s2 k = Inr j \<longrightarrow>
                priority j \<le> priority v \<and> (priority j = priority v \<longrightarrow> arrivalTime j \<le> arrivalTime v)) \<and>
             jobs (cpu s') = (jobs (cpu two_running))[nat r := Some (brk two_running)] \<and>
             (\<exists>pre post. head (mQueue two_running) = pre @ post \<and> head (mQueue s') = pre @ pv # post))"
    unfolding sch by simp
  from pre two_running_occupants(1) worse
  obtain v pv where v: "core_job ?s2 r = Inr v" and r0: "0 \<le> r"
    and pv: "jobs (cpu two_running) ! nat r = Some pv"
    and best: "\<forall>k j. core_job ?s2 k = Inr j \<longrightarrow> priority j \<le> priority v"
    and cores: "jobs (cpu s') = (jobs (cpu two_running))[nat r := Some (brk two_running)]"
    and queue: "\<exists>pre post. head (mQueue two_running) = pre @ post \<and> head (mQueue s') = pre @ pv # post"
    by blast
  from best two_running_occupants(1) have p3: "3 \<le> priority v" by fastforce
  from core_job_InrD [OF v] have "nat r < 2" by (simp add: two_running_def)
  with r0 have "r = 0 \<or> r = 1" by auto
  with v p3 two_running_occupants(2) have r: "r = 0" by auto
  with pv have "pv = 0" by (simp add: two_running_def)
  with queue have "head (mQueue s') = [0]"
    by (simp add: two_running_def initial_globals_def priqueue_init_def)
  moreover from cores r have "jobs (cpu s') = [Some 2, Some 1]" by (simp add: two_running_def)
  ultimately show ?thesis using h1 h2 h3 h4 f1 f2 res r by blast
qed


section \<open>C2: every job is in exactly one container\<close>

text \<open>
  Claim C2. Start the scheduler with a positive number of cores and let the driver send
  any valid sequence of events. After every prefix of the sequence the scheduler has
  returned from every call, and in the state reached every allocated job occurs exactly
  once among the entries of the ready queue and the cores (so it is one entry of the
  queue, or the occupant of one core, and not both), while an address that is not
  allocated, such as that of a job that has finished and was freed, occurs in neither.
  Validity asks only that times do not decrease and that a core named by an event holds
  a job (with the number given, for a completion).
\<close>

theorem every_job_in_one_container:
  assumes "0 < cores" and "scheduler_start_up cores scheme initial_globals = Inr s0"
    and "valid_events es s0"
  shows "\<forall>n. \<exists>s. run (take n es) s0 = Inr s \<and> one_container s"
proof
  fix n
  from assms(2) have "s0 = started cores scheme" by (simp add: start_up_started)
  with assms(1) have "sched_inv s0" by (simp add: start_inv)
  moreover from assms(3) have "valid_events (take n es) s0" by (rule valid_events_take)
  ultimately obtain s where "run (take n es) s0 = Inr s" "sched_inv s"
    using run_inv by blast
  then show "\<exists>s. run (take n es) s0 = Inr s \<and> one_container s"
    using sched_inv_one_container by blast
qed

theorem every_job_in_one_container_witness:
  "(0 :: int) < 1 \<and> scheduler_start_up 1 FCFS initial_globals = Inr (started 1 FCFS) \<and>
   valid_events fcfs_run (started 1 FCFS) \<and>
   (\<forall>n. \<exists>s. run (take n fcfs_run) (started 1 FCFS) = Inr s \<and> one_container s)"
proof -
  have h1: "(0 :: int) < 1" by simp
  have h2: "scheduler_start_up 1 FCFS initial_globals = Inr (started 1 FCFS)"
    by (rule start_up_started)
  have h3: "valid_events fcfs_run (started 1 FCFS)"
    by (simp add: fcfs_run_def started_def scheduler_new_job_def scheduler_job_finished_def
        cpuUpdateTime_def visited_def overrun_def cpuCoresAvailable_def core_slot_def core_job_def
        cpuCoreAssignJob_def cpuCoreRemoveJob_def compare_def compare_jobs_def int32_def
        priqueue_offer_def priqueue_remove_def priqueue_poll_def poll_and_assign_def
        cpuUpdateTime_job_def Let_def initial_globals_def priqueue_init_def cpuInit_def)
  from every_job_in_one_container [OF h1 h2 h3] h1 h2 h3 show ?thesis by blast
qed

section \<open>C8: what a finished job adds to the accumulators\<close>

text \<open>
  Claim C8 as it is stated, for every job that a valid event reports as finished, fails:
  \<open>scheduler_job_finished\<close> does not look at the remaining time. Start one core under
  FCFS and let job 1 (5 units of service) arrive at 0; the state is \<open>one_running\<close>. The
  driver reports the job as finished at time 2, which is a valid event. The call
  returns, and the amount it credits as wait is 2 - 0 - 5 = -3.
\<close>

theorem early_completion_negative_wait:
  "scheduler_start_up 1 FCFS initial_globals = Inr (started 1 FCFS) \<and>
   valid_events [NewJob 1 0 5 0, JobFinished 0 1 2] (started 1 FCFS) \<and>
   run [NewJob 1 0 5 0] (started 1 FCFS) = Inr one_running \<and>
   map_sum id (totalWaitTime \<circ> fst) (scheduler_job_finished 0 1 2 one_running) = Inr (- 3) \<and>
   map_sum id (numWaiting \<circ> fst) (scheduler_job_finished 0 1 2 one_running) = Inr 1"
proof -
  note calls = scheduler_new_job_def scheduler_job_finished_def cpuUpdateTime_def visited_def
    overrun_def cpuCoresAvailable_def core_slot_def core_job_def cpuCoreAssignJob_def
    cpuCoreRemoveJob_def compare_def compare_jobs_def int32_def priqueue_offer_def
    priqueue_remove_def priqueue_poll_def poll_and_assign_def cpuUpdateTime_job_def Let_def
    initial_globals_def priqueue_init_def cpuInit_def
  have "scheduler_start_up 1 FCFS initial_globals = Inr (started 1 FCFS)"
    by (rule start_up_started)
  moreover have "valid_events [NewJob 1 0 5 0, JobFinished 0 1 2] (started 1 FCFS)"
    by (simp add: started_def calls)
  moreover have "run [NewJob 1 0 5 0] (started 1 FCFS) = Inr one_running"
    by (simp add: started_def one_running_def calls)
  moreover have "map_sum id (totalWaitTime \<circ> fst) (scheduler_job_finished 0 1 2 one_running) = Inr (- 3)"
    "map_sum id (numWaiting \<circ> fst) (scheduler_job_finished 0 1 2 one_running) = Inr 1"
    by (simp_all add: one_running_def calls)
  ultimately show ?thesis by blast
qed

text \<open>
  Claim C8, amended. Start the scheduler and let the driver send a valid sequence of
  events, of which event \<open>n\<close> reports the job \<open>j\<close> at address \<open>p\<close> on a core as finished at
  \<open>time\<close>, when the job has received all its service (\<open>remainingTime j \<le> time - lastTime j\<close>:
  nothing remains after the time-advance). The call returns; the wait accumulator grows
  by \<open>wait = time - arrival - run_time\<close> and the turnaround accumulator by
  \<open>turnaround = time - arrival\<close>, each counter by one; \<open>wait = turnaround - run_time\<close>,
  \<open>wait \<ge> 0\<close> and \<open>turnaround \<ge> run_time\<close>. The response accumulator grows by the
  responses of the jobs that the time-advance of this call counts, and the response
  counter by their number. And whenever the time-advance of a call of the run, this
  call or an earlier one, finds the job in a core with its first dispatch time unset and
  a last dispatch time other than the new time, which is when it credits the job's
  response \<open>lastTime - arrivalTime\<close>, the amount credited is at most \<open>wait\<close>.
\<close>

theorem finished_job_credits:
  assumes cores: "0 < cores" and start: "scheduler_start_up cores scheme initial_globals = Inr s0"
    and valid: "valid_events es s0"
    and n: "n < length es" and fin: "es ! n = JobFinished core_id job_number time"
    and s: "run (take n es) s0 = Inr s"
    and p: "core_slot s core_id = Inr (Some p)" and j: "mem s p = Some j"
    and served: "remainingTime j \<le> time - lastTime j"
  shows "\<exists>s' r. scheduler_job_finished core_id job_number time s = Inr (s', r) \<and>
     (let turnaround = time - arrivalTime j;
          wait = time - arrivalTime j - runTime j;
          credited = responders time (somes (jobs (cpu s))) (mem s)
      in totalWaitTime s' = totalWaitTime s + real_of_int wait \<and>
         numWaiting s' = numWaiting s + 1 \<and>
         totalTurnAroundTime s' = totalTurnAroundTime s + real_of_int turnaround \<and>
         numTurnAround s' = numTurnAround s + 1 \<and>
         wait = turnaround - runTime j \<and> 0 \<le> wait \<and> runTime j \<le> turnaround \<and>
         totalRespTime s' = totalRespTime s
            + real_of_int (sum_list (map (response_of (mem s)) credited)) \<and>
         numResponse s' = numResponse s + int (length credited) \<and>
         (\<forall>m sm jm. m \<le> n \<longrightarrow> run (take m es) s0 = Inr sm \<longrightarrow>
             p \<in> set (somes (jobs (cpu sm))) \<longrightarrow> mem sm p = Some jm \<longrightarrow>
             initTime jm = - 1 \<and> lastTime jm \<noteq> event_time (es ! m) \<longrightarrow>
             lastTime jm - arrivalTime jm \<le> wait))"
proof -
  from start have s0: "s0 = started cores scheme" by (simp add: start_up_started)
  with cores have i0: "sched_inv s0" by (simp add: start_inv)
  have reach: "sched_inv sm" if "run (take m es) s0 = Inr sm" for m sm
    using run_inv [OF i0 valid_events_take [OF valid, of m]] that by auto
  from reach [OF s] have inv: "sched_inv s" .
  from valid_events_nth [OF valid n s] fin
  have ve: "valid_event s (JobFinished core_id job_number time)" by simp
  from p j have cj: "core_job s core_id = Inr j" by (simp add: core_job_def)
  with ve have t: "currentTime s \<le> time" and num: "jobNumber j = job_number" by simp_all
  from cj obtain p' where c: "nat core_id < length (jobs (cpu s))"
    and p': "jobs (cpu s) ! nat core_id = Some p'" and "mem s p' = Some j"
    by (rule valid_core_event)
  from p p' have "p' = p" by (auto simp: core_slot_def split: if_splits)
  with c p' have pc: "p \<in> set (somes (jobs (cpu s)))" by (auto simp: set_somes dest: nth_mem)
  with running_lastTime [OF inv] j have last: "lastTime j = currentTime s" by fastforce
  from inv_timeD(1) [OF sched_invD(2) [OF inv] j] have ok: "job_times_ok (currentTime s) j" .
  from ok last served have w0: "0 \<le> time - arrivalTime j - runTime j"
    by (auto simp: job_times_ok_def)
  have first: "f - arrivalTime j \<le> time - arrivalTime j - runTime j"
    if "if initTime j = - 1 then f = lastTime j else f = initTime j" for f
    using that ok last served by (auto simp: job_times_ok_def split: if_splits)
  have hist: "lastTime jm - arrivalTime jm \<le> time - arrivalTime j - runTime j"
    if m: "m \<le> n" and sm: "run (take m es) s0 = Inr sm"
      and core: "p \<in> set (somes (jobs (cpu sm)))" and jm: "mem sm p = Some jm"
      and cr: "initTime jm = - 1 \<and> lastTime jm \<noteq> event_time (es ! m)" for m sm jm
  proof (cases "m = n")
    case True
    with sm s jm j have "jm = j" by simp
    with cr first [of "lastTime j"] show ?thesis by simp
  next
    case False
    with m have mn: "m < n" by simp
    define rest where "rest = drop (Suc m) (take n es)"
    from n have tk: "take n es = take m es @ es ! m # rest"
      unfolding rest_def by (intro take_as_prefix [OF mn]) simp
    from s have a: "run (es ! m # rest) sm = Inr s"
      by (simp add: tk run_append sm)
    from valid_events_take [OF valid, of n] have "valid_events (take m es @ es ! m # rest) s0"
      by (simp add: tk)
    then have b: "valid_events (es ! m # rest) sm" using sm by (rule valid_events_append)
    then have "valid_event sm (es ! m)" by simp
    from handle_step [OF reach [OF sm] this] obtain s1 r
      where h: "handle (es ! m) sm = Inr (s1, r)" and i1: "sched_inv s1" by auto
    with a b have "valid_events rest s1" "run rest s1 = Inr s" by simp_all
    from first_response_kept [OF reach [OF sm] h i1 this core jm _ _ j] cr
    have "initTime j = lastTime jm" "arrivalTime j = arrivalTime jm" "lastTime jm \<noteq> - 1" by simp_all
    with first [of "initTime j"] show ?thesis by simp
  qed
  from job_finished_step [OF inv t cj num] obtain s' r
    where res: "scheduler_job_finished core_id job_number time s = Inr (s', r)"
      "totalWaitTime s' = totalWaitTime s + real_of_int (time - arrivalTime j - runTime j)"
      "numWaiting s' = numWaiting s + 1"
      "totalTurnAroundTime s' = totalTurnAroundTime s + real_of_int (time - arrivalTime j)"
      "numTurnAround s' = numTurnAround s + 1"
      "totalRespTime s' = totalRespTime (advanced time s)"
      "numResponse s' = numResponse (advanced time s)"
    by blast
  show ?thesis unfolding Let_def
  proof (intro exI [of _ s'] exI [of _ r] conjI)
    show "\<forall>m sm jm. m \<le> n \<longrightarrow> run (take m es) s0 = Inr sm \<longrightarrow>
             p \<in> set (somes (jobs (cpu sm))) \<longrightarrow> mem sm p = Some jm \<longrightarrow>
             initTime jm = - 1 \<and> lastTime jm \<noteq> event_time (es ! m) \<longrightarrow>
             lastTime jm - arrivalTime jm \<le> time - arrivalTime j - runTime j"
      using hist by blast
  qed (use res w0 in \<open>simp_all add: advanced_response\<close>)
qed

theorem finished_job_credits_witness:
  "(0 :: int) < 1 \<and> scheduler_start_up 1 FCFS initial_globals = Inr (started 1 FCFS) \<and>
   valid_events fcfs_run (started 1 FCFS) \<and>
   3 < length fcfs_run \<and> fcfs_run ! 3 = JobFinished 0 2 8 \<and>
   run (take 3 fcfs_run) (started 1 FCFS) = Inr second_running \<and>
   core_slot second_running 0 = Inr (Some 1) \<and>
   mem second_running 1 = Some \<lparr>jobNumber = 2, arrivalTime = 1, runTime = 3, remainingTime = 3,
                                  priority = 0, initTime = - 1, lastTime = 5\<rparr> \<and>
   (\<exists>s' r. scheduler_job_finished 0 2 8 second_running = Inr (s', r) \<and>
      totalWaitTime s' = 4 \<and> numWaiting s' = 2 \<and> totalTurnAroundTime s' = 12 \<and>
      numTurnAround s' = 2 \<and> totalRespTime s' = 4 \<and> numResponse s' = 2)"
proof -
  let ?j = "\<lparr>jobNumber = 2, arrivalTime = 1, runTime = 3, remainingTime = 3,
            priority = 0, initTime = - 1, lastTime = 5\<rparr>"
  note calls = scheduler_new_job_def scheduler_job_finished_def cpuUpdateTime_def visited_def
    overrun_def cpuCoresAvailable_def core_slot_def core_job_def cpuCoreAssignJob_def
    cpuCoreRemoveJob_def compare_def compare_jobs_def int32_def priqueue_offer_def
    priqueue_remove_def priqueue_poll_def poll_and_assign_def cpuUpdateTime_job_def Let_def
    initial_globals_def priqueue_init_def cpuInit_def
  have h1: "(0 :: int) < 1" by simp
  have h2: "scheduler_start_up 1 FCFS initial_globals = Inr (started 1 FCFS)"
    by (rule start_up_started)
  have h3: "valid_events fcfs_run (started 1 FCFS)" by (simp add: fcfs_run_def started_def calls)
  have h4: "3 < length fcfs_run" by (simp add: fcfs_run_def)
  have h5: "fcfs_run ! 3 = JobFinished 0 2 8" by (simp add: fcfs_run_def)
  have h6: "run (take 3 fcfs_run) (started 1 FCFS) = Inr second_running"
    by (simp add: fcfs_run_def started_def second_running_def calls fun_eq_iff)
  have h7: "core_slot second_running 0 = Inr (Some 1)"
    by (simp add: second_running_def core_slot_def)
  have h8: "mem second_running 1 = Some ?j" by (simp add: second_running_def)
  have h9: "remainingTime ?j \<le> 8 - lastTime ?j" by simp
  have resp: "responders 8 (somes (jobs (cpu second_running))) (mem second_running) = [1]"
    by (simp add: responders_def responds_def second_running_def)
  from finished_job_credits [OF h1 h2 h3 h4 h5 h6 h7 h8 h9]
  obtain s' r where "scheduler_job_finished 0 2 8 second_running = Inr (s', r)"
    "totalWaitTime s' = totalWaitTime second_running + real_of_int (8 - arrivalTime ?j - runTime ?j)"
    "numWaiting s' = numWaiting second_running + 1"
    "totalTurnAroundTime s' = totalTurnAroundTime second_running + real_of_int (8 - arrivalTime ?j)"
    "numTurnAround s' = numTurnAround second_running + 1"
    "totalRespTime s' = totalRespTime second_running
       + real_of_int (sum_list (map (response_of (mem second_running))
           (responders 8 (somes (jobs (cpu second_running))) (mem second_running))))"
    "numResponse s' = numResponse second_running
       + int (length (responders 8 (somes (jobs (cpu second_running))) (mem second_running)))"
    unfolding Let_def by blast
  then have "scheduler_job_finished 0 2 8 second_running = Inr (s', r) \<and>
      totalWaitTime s' = 4 \<and> numWaiting s' = 2 \<and> totalTurnAroundTime s' = 12 \<and>
      numTurnAround s' = 2 \<and> totalRespTime s' = 4 \<and> numResponse s' = 2"
    unfolding resp by (simp add: second_running_def initial_globals_def response_of_def)
  with h1 h2 h3 h4 h5 h6 h7 h8 show ?thesis by blast
qed

end
